theory Spec2Isabelle
  imports Main "HOL-Library.Word"
begin

unbundle bit_operations_syntax

section \<open>Machine types\<close>

type_synonym u8 = "8 word"
type_synonym u16 = "16 word"
type_synonym u32 = "32 word"

section \<open>authentication.c\<close>

text \<open>\<^verbatim>\<open>typedef struct { uint32_t w; uint32_t z; } CERTIFY;\<close>\<close>

record CERTIFY =
  w :: u32
  z :: u32

text \<open>
  \<^verbatim>\<open>auth_unlock\<close> mutates the structure behind \<^verbatim>\<open>certify\<close> and returns a flag; the
  model returns the flag together with the updated structure.
\<close>

definition auth_unlock :: "CERTIFY \<Rightarrow> u32 \<Rightarrow> bool \<times> CERTIFY" where
  "auth_unlock certify key =
     (let z1 = 36967 * (z certify AND 0xFFFF) + drop_bit 16 (z certify) + 1;
          w1 = 18001 * (w certify AND 0xFFFF) + drop_bit 16 (w certify) + 1;
          val = push_bit 16 z1 + w1
      in (key = val, \<lparr>w = w1, z = z1\<rparr>))"

section \<open>timer.c\<close>

text \<open>\<^verbatim>\<open>TIMER_ERROR\<close>: the enumerators are bit positions in the error mask.\<close>

datatype TIMER_ERROR =
  TIMER_MEM_ERROR | TIMER_FRQ_ERROR | TIMER_UST_ERROR | TIMER_PWM_ERROR | TIMER_OOR_ERROR

fun timer_error_code :: "TIMER_ERROR \<Rightarrow> nat" where
  "timer_error_code TIMER_MEM_ERROR = 0"
| "timer_error_code TIMER_FRQ_ERROR = 1"
| "timer_error_code TIMER_UST_ERROR = 2"
| "timer_error_code TIMER_PWM_ERROR = 3"
| "timer_error_code TIMER_OOR_ERROR = 4"

record TIMER_DATA =
  status :: bool
  error :: u32
  uptime :: u32
  sec_timer :: u32
  bms_timer :: u32
  bms_time_flag :: u32
  tick :: u32
  tick_freq :: u32

text \<open>
  The module state: the operational data, its redundant complement copy and the
  core's PRIMASK register, which the getters save, set and restore.
\<close>

record timer_state =
  timer_data :: TIMER_DATA
  timer_data_red :: TIMER_DATA
  primask :: u32

definition timer_data_init :: TIMER_DATA where
  "timer_data_init =
     \<lparr>status = True, error = 0, uptime = 0, sec_timer = 0, bms_timer = 0,
      bms_time_flag = 0, tick = 0, tick_freq = 1\<rparr>"

definition timer_data_red_init :: TIMER_DATA where
  "timer_data_red_init =
     \<lparr>status = False, error = 0xffffffff, uptime = 0xffffffff, sec_timer = 0xffffffff,
      bms_timer = 0xffffffff, bms_time_flag = 0xffffffff, tick = 0xffffffff,
      tick_freq = 0xfffffffe\<rparr>"

definition timer_error :: "TIMER_ERROR \<Rightarrow> timer_state \<Rightarrow> timer_state" where
  "timer_error e t =
     (let d1 = (timer_data t)\<lparr>status := False\<rparr>;
          r1 = (timer_data_red t)\<lparr>status := \<not> status d1\<rparr>;
          d2 = d1\<lparr>error := error d1 OR push_bit (timer_error_code e) 1\<rparr>;
          r2 = r1\<lparr>error := error r1 AND (push_bit (timer_error_code e) 1 XOR 0xFFFFFFFF)\<rparr>
      in t\<lparr>timer_data := d2, timer_data_red := r2\<rparr>)"

definition disable_irq :: "timer_state \<Rightarrow> timer_state" where
  "disable_irq t = t\<lparr>primask := 1\<rparr>"

definition set_PRIMASK :: "u32 \<Rightarrow> timer_state \<Rightarrow> timer_state" where
  "set_PRIMASK v t = t\<lparr>primask := v\<rparr>"

definition timer_get_tick :: "timer_state \<Rightarrow> u32 \<times> timer_state" where
  "timer_get_tick t0 =
     (let old_primask = primask t0;
          t1 = disable_irq t0;
          tk = tick (timer_data t1);
          tick_red = tick (timer_data_red t1)
      in if tk \<noteq> (tick_red XOR 0xFFFFFFFF)
         then (0, set_PRIMASK old_primask (timer_error TIMER_MEM_ERROR t1))
         else (tick (timer_data t1), set_PRIMASK old_primask t1))"

definition timer_get_uptime :: "timer_state \<Rightarrow> u32 \<times> timer_state" where
  "timer_get_uptime t0 =
     (let old_primask = primask t0;
          t1 = disable_irq t0
      in if uptime (timer_data t1) \<noteq> (uptime (timer_data_red t1) XOR 0xFFFFFFFF)
         then (0, set_PRIMASK old_primask (timer_error TIMER_MEM_ERROR t1))
         else (uptime (timer_data t1), set_PRIMASK old_primask t1))"

text \<open>\<^verbatim>\<open>timer_reset_module_timer\<close> stores the tick in \<^verbatim>\<open>*module_timer\<close>; the model returns it.\<close>

definition timer_reset_module_timer :: "timer_state \<Rightarrow> u32 \<times> timer_state" where
  "timer_reset_module_timer t = timer_get_tick t"

definition timer_get_elapsed_module_timer :: "u32 \<Rightarrow> timer_state \<Rightarrow> u32 \<times> timer_state" where
  "timer_get_elapsed_module_timer module_timer t =
     (let (now, t1) = timer_get_tick t in (now - module_timer, t1))"

text \<open>\<^verbatim>\<open>auth_renew_values\<close> (authentication.c) salts \<^verbatim>\<open>z\<close> from the time base.\<close>

definition auth_renew_values :: "CERTIFY \<Rightarrow> timer_state \<Rightarrow> CERTIFY \<times> timer_state" where
  "auth_renew_values certify t =
     (let (up, t1) = timer_get_uptime t;
          c1 = certify\<lparr>z := z certify + (up AND 0xF)\<rparr>;
          (val, t2) = timer_reset_module_timer t1
      in (c1\<lparr>z := z c1 + val\<rparr>, t2))"

section \<open>rtc.c\<close>

text \<open>
  The time and date structures are declared by the STM32 HAL headers, which are not part
  of the sources; the fields are the HAL's, in the HAL's order.
\<close>

record RTC_TimeTypeDef =
  Hours :: u8
  Minutes :: u8
  Seconds :: u8
  TimeFormat :: u8
  SubSeconds :: u32
  SecondFraction :: u32
  DayLightSaving :: u32
  StoreOperation :: u32

record RTC_DateTypeDef =
  WeekDay :: u8
  Month :: u8
  Date :: u8
  Year :: u8

definition RTC_WEEKDAY_TUESDAY :: u8 where "RTC_WEEKDAY_TUESDAY = 0x02"
definition RTC_DAYLIGHTSAVING_NONE :: u32 where "RTC_DAYLIGHTSAVING_NONE = 0"
definition RTC_STOREOPERATION_RESET :: u32 where "RTC_STOREOPERATION_RESET = 0"

definition WD_FLAG :: u8 where "WD_FLAG = 0x5A"
definition LD_FLAG :: u32 where "LD_FLAG = 0xC3"
definition CMD_SETUP_FLAG :: u32 where "CMD_SETUP_FLAG = 0xF9"

definition RTC_CMD_SETUP_REG :: nat where "RTC_CMD_SETUP_REG = 1"
definition RTC_GF_REG :: nat where "RTC_GF_REG = 4"
definition RTC_LD_REG :: nat where "RTC_LD_REG = 0"
definition RTC_SERIAL_REG :: nat where "RTC_SERIAL_REG = 2"
definition RTC_WD_REG :: nat where "RTC_WD_REG = 0"
definition RTC_RST_REG :: nat where "RTC_RST_REG = 3"

text \<open>
  The peripheral behind rtc.c: the backup registers (indexed as the HAL indexes them), the
  calendar registers, and the three clock and access gates that \<^verbatim>\<open>rtc_get_loader_flag\<close>
  opens by HAL macros.
\<close>

record rtc_hw =
  bkp :: "nat \<Rightarrow> u32"
  calendar_time :: RTC_TimeTypeDef
  calendar_date :: RTC_DateTypeDef
  rtcapb_clk_enabled :: bool
  pwr_clk_enabled :: bool
  bkup_access_enabled :: bool

definition HAL_RTCEx_BKUPRead :: "rtc_hw \<Rightarrow> nat \<Rightarrow> u32" where
  "HAL_RTCEx_BKUPRead h r = bkp h r"

definition HAL_RTCEx_BKUPWrite :: "nat \<Rightarrow> u32 \<Rightarrow> rtc_hw \<Rightarrow> rtc_hw" where
  "HAL_RTCEx_BKUPWrite r v h = h\<lparr>bkp := (bkp h)(r := v)\<rparr>"

definition rtc_read :: "rtc_hw \<Rightarrow> RTC_TimeTypeDef \<times> RTC_DateTypeDef" where
  "rtc_read h = (calendar_time h, calendar_date h)"

definition rtc_write :: "RTC_TimeTypeDef \<Rightarrow> RTC_DateTypeDef \<Rightarrow> rtc_hw \<Rightarrow> rtc_hw" where
  "rtc_write sTime sDate h = h\<lparr>calendar_time := sTime, calendar_date := sDate\<rparr>"

text \<open>
  \<^verbatim>\<open>rtc_validate_and_correct\<close> writes through both pointers; the model returns the flag
  and the two structures as they are after the call.
\<close>

definition rtc_validate_and_correct ::
  "RTC_TimeTypeDef \<Rightarrow> RTC_DateTypeDef \<Rightarrow> bool \<times> RTC_TimeTypeDef \<times> RTC_DateTypeDef" where
  "rtc_validate_and_correct sTime sDate =
     (let success = \<not> (Year sDate < 16 \<or> Year sDate > 99 \<or>
                         Month sDate < 1 \<or> Month sDate > 12 \<or>
                         Date sDate < 1 \<or> Date sDate > 31 \<or>
                         Hours sTime > 23 \<or>
                         Minutes sTime > 59 \<or>
                         Seconds sTime > 59);
          d1 = (if \<not> success then sDate\<lparr>Year := 0, Month := 1, Date := 1\<rparr> else sDate);
          t1 = (if \<not> success then sTime\<lparr>Hours := 0, Minutes := 0, Seconds := 0\<rparr> else sTime);
          d2 = d1\<lparr>WeekDay := RTC_WEEKDAY_TUESDAY\<rparr>;
          t2 = t1\<lparr>SecondFraction := 0, DayLightSaving := RTC_DAYLIGHTSAVING_NONE,
                  StoreOperation := RTC_STOREOPERATION_RESET\<rparr>
      in (success, t2, d2))"

definition rtc_set_wd_flag :: "u32 \<Rightarrow> rtc_hw \<Rightarrow> rtc_hw" where
  "rtc_set_wd_flag val h =
     (let wd_flag = push_bit 24 (ucast WD_FLAG :: u32)
      in HAL_RTCEx_BKUPWrite RTC_WD_REG (wd_flag OR (val AND 0x00FFFFFF)) h)"

text \<open>
  \<^verbatim>\<open>rtc_get_wd_flag\<close> stores through \<^verbatim>\<open>pc\<close> only on success; the model takes the value
  behind \<^verbatim>\<open>pc\<close> before the call and returns the flag, the value behind \<^verbatim>\<open>pc\<close> after
  the call and the peripheral.
\<close>

definition rtc_get_wd_flag :: "u32 \<Rightarrow> rtc_hw \<Rightarrow> bool \<times> u32 \<times> rtc_hw" where
  "rtc_get_wd_flag pc h =
     (let ret = HAL_RTCEx_BKUPRead h RTC_WD_REG;
          flag = (ucast (drop_bit 24 ret) :: u8)
      in if flag = WD_FLAG
         then (True, ret AND 0x00FFFFFF, HAL_RTCEx_BKUPWrite RTC_WD_REG 0 h)
         else (False, pc, h))"

definition rtc_set_loader_flag :: "rtc_hw \<Rightarrow> rtc_hw" where
  "rtc_set_loader_flag h = HAL_RTCEx_BKUPWrite RTC_LD_REG LD_FLAG h"

text \<open>
  \<^verbatim>\<open>rtc_get_loader_flag\<close> runs before the HAL is initialised and reads the register
  through its address, \<^verbatim>\<open>BKP_REG_PERIPHERAL[BKP_REG_UINT32_OFFSET + RTC_LD_REG]\<close>, which
  is backup register \<^verbatim>\<open>RTC_LD_REG\<close>.
\<close>

definition rtc_get_loader_flag :: "rtc_hw \<Rightarrow> bool \<times> rtc_hw" where
  "rtc_get_loader_flag h0 =
     (let h1 = h0\<lparr>rtcapb_clk_enabled := True\<rparr>;
          ret = bkp h1 RTC_LD_REG
      in if ret = LD_FLAG
         then (True, h1\<lparr>pwr_clk_enabled := True, bkup_access_enabled := True,
                        bkp := (bkp h1)(RTC_LD_REG := 0)\<rparr>)
         else (False, h1))"

definition rtc_set_cmd_setup_flag :: "rtc_hw \<Rightarrow> rtc_hw" where
  "rtc_set_cmd_setup_flag h = HAL_RTCEx_BKUPWrite RTC_CMD_SETUP_REG CMD_SETUP_FLAG h"

definition rtc_get_cmd_setup_flag :: "rtc_hw \<Rightarrow> bool \<times> rtc_hw" where
  "rtc_get_cmd_setup_flag h =
     (let ret = HAL_RTCEx_BKUPRead h RTC_CMD_SETUP_REG
      in if ret = CMD_SETUP_FLAG then (True, HAL_RTCEx_BKUPWrite RTC_CMD_SETUP_REG 0 h)
         else (False, h))"

section \<open>The C library as the firmware uses it\<close>

text \<open>
  Strings are C strings without their terminating NUL. \<^verbatim>\<open>strtoul\<close> is called with a null
  end pointer and base 10 only; it follows ISO C for a 32-bit \<^verbatim>\<open>unsigned long\<close>: leading
  white space is skipped, one sign is accepted, the longest run of decimal digits is
  converted, a value that does not fit yields \<^verbatim>\<open>ULONG_MAX\<close>, a minus sign negates modulo
  \<open>2 ^ 32\<close>, and no digits yield 0.
\<close>

definition isspace :: "char \<Rightarrow> bool" where
  "isspace c = (c = CHR '' '' \<or> c = CHR 0x09 \<or> c = CHR 0x0A \<or> c = CHR 0x0B
                \<or> c = CHR 0x0C \<or> c = CHR 0x0D)"

definition isdigit :: "char \<Rightarrow> bool" where
  "isdigit c = (48 \<le> (of_char c :: nat) \<and> (of_char c :: nat) \<le> 57)"

fun strtoul_digits :: "string \<Rightarrow> nat \<Rightarrow> nat" where
  "strtoul_digits [] acc = acc"
| "strtoul_digits (c # cs) acc =
     (if isdigit c then strtoul_digits cs (acc * 10 + (of_char c - 48)) else acc)"

definition strtoul :: "string \<Rightarrow> u32" where
  "strtoul nptr =
     (let s1 = dropWhile isspace nptr;
          neg = (case s1 of [] \<Rightarrow> False | c # _ \<Rightarrow> c = CHR ''-'');
          s2 = (case s1 of [] \<Rightarrow> [] | c # cs \<Rightarrow> if c = CHR ''-'' \<or> c = CHR ''+'' then cs else s1);
          v = strtoul_digits s2 0
      in if v > 0xFFFFFFFF then 0xFFFFFFFF else if neg then - of_nat v else of_nat v)"

text \<open>Decimal conversion as \<^verbatim>\<open>printf\<close> does it for \<^verbatim>\<open>%lu\<close>, \<^verbatim>\<open>%ld\<close> and \<^verbatim>\<open>%02d\<close>.\<close>

definition digit_char :: "nat \<Rightarrow> char" where
  "digit_char n = ''0123456789'' ! (n mod 10)"

function dec :: "nat \<Rightarrow> string" where
  "dec n = (if n < 10 then [digit_char n] else dec (n div 10) @ [digit_char (n mod 10)])"
  by pat_completeness auto
termination
  by (relation "measure id") auto

declare dec.simps [simp del]

definition fmt_lu :: "u32 \<Rightarrow> string" where
  "fmt_lu x = dec (unat x)"

definition fmt_ld :: "u32 \<Rightarrow> string" where
  "fmt_ld x = (if sint x < 0 then CHR ''-'' # dec (nat (- sint x)) else dec (nat (sint x)))"

definition fmt_02d :: "u8 \<Rightarrow> string" where
  "fmt_02d x = (if unat x < 10 then CHR ''0'' # dec (unat x) else dec (unat x))"

definition CRLF :: string where
  "CRLF = [CHR 0x0D, CHR 0x0A]"

section \<open>commands.c: the tokeniser\<close>

text \<open>
  \<^verbatim>\<open>nsplit\<close> works in place on a character array and fills a table of pointers into it.
  The array is a list of characters, a pointer into it is an offset, and the pointer
  table is a list of offsets. An access outside the array or the table is undefined in C;
  the model makes it the result \<open>None\<close>. The counters are \<^verbatim>\<open>uint32_t\<close> in the source and
  never exceed the length of the array, so they are natural numbers here.
\<close>

definition NUL :: char where
  "NUL = CHR 0x00"

definition rd :: "'a list \<Rightarrow> nat \<Rightarrow> 'a option" where
  "rd xs k = (if k < length xs then Some (xs ! k) else None)"

definition strlen :: "char list \<Rightarrow> nat option" where
  "strlen buf = (if NUL \<in> set buf then Some (length (takeWhile (\<lambda>c. c \<noteq> NUL) buf)) else None)"

text \<open>The C string that starts at offset \<open>p\<close> of the array.\<close>

definition cstr :: "char list \<Rightarrow> nat \<Rightarrow> string" where
  "cstr buf p = takeWhile (\<lambda>c. c \<noteq> NUL) (drop p buf)"

text \<open>
  The inner loop on an opening quote,
  \<^verbatim>\<open>while ((*out[num - 1u] != '\"') && (lim < 5u)) { out[num - 1u]++; lim++; }\<close>,
  on the pointer \<open>p = out[num - 1]\<close>; it returns the pointer the loop ends with.
\<close>

function nsplit_find_quote :: "char list \<Rightarrow> nat \<Rightarrow> nat \<Rightarrow> nat option" where
  "nsplit_find_quote inb p lim =
     (case rd inb p of
        None \<Rightarrow> None
      | Some c \<Rightarrow> if c \<noteq> CHR 0x22 \<and> lim < 5 then nsplit_find_quote inb (p + 1) (lim + 1)
                  else Some p)"
  by pat_completeness auto
termination
  by (relation "measure (\<lambda>(inb, p, lim). 5 - lim)") auto

text \<open>
  The loop that strips leading divide characters of the next element; it returns
  \<open>index_in\<close>, \<open>i\<close> and \<open>out[num]\<close> as the loop leaves them.
\<close>

function nsplit_strip ::
  "char list \<Rightarrow> char \<Rightarrow> nat \<Rightarrow> nat \<Rightarrow> nat \<Rightarrow> nat \<Rightarrow> (nat \<times> nat \<times> nat) option" where
  "nsplit_strip inb div_char len index_in i p =
     (if i < len
      then (case rd inb index_in of
              None \<Rightarrow> None
            | Some c \<Rightarrow> if c \<noteq> NUL \<and> c = div_char
                        then nsplit_strip inb div_char len (index_in + 1) (i + 1) (p + 1)
                        else Some (index_in, i, p))
      else Some (index_in, i, p))"
  by pat_completeness auto
termination
  by (relation "measure (\<lambda>(inb, div_char, len, index_in, i, p). len - i)") auto

declare nsplit_strip.simps [simp del]

text \<open>
  The handling of a double quote at \<open>index_in\<close>: toggle \<open>tq\<close>, on an opening quote move
  \<open>out[num - 1]\<close> past the next quote (at most five characters ahead), and overwrite the
  quote by a space. It returns \<open>tq\<close>, the table and the array.
\<close>

definition nsplit_quote ::
  "char list \<Rightarrow> nat list \<Rightarrow> nat \<Rightarrow> u8 \<Rightarrow> nat \<Rightarrow> (u8 \<times> nat list \<times> char list) option" where
  "nsplit_quote inb out index_in tq num =
     (let tq1 = tq XOR 1
      in if tq1 = 1
         then (case rd out (num - 1) of
                 None \<Rightarrow> None
               | Some p \<Rightarrow>
                   (case nsplit_find_quote inb p 0 of
                      None \<Rightarrow> None
                    | Some p1 \<Rightarrow> Some (tq1, out[num - 1 := p1 + 1], inb[index_in := CHR '' ''])))
         else Some (tq1, out, inb[index_in := CHR '' '']))"

text \<open>The outer loop; it returns the array, the table, \<open>index_in\<close> and \<open>num\<close>.\<close>

function nsplit_loop ::
  "char \<Rightarrow> nat \<Rightarrow> nat \<Rightarrow> char list \<Rightarrow> nat list \<Rightarrow> nat \<Rightarrow> nat \<Rightarrow> u8 \<Rightarrow> nat
   \<Rightarrow> (char list \<times> nat list \<times> nat \<times> nat) option" where
  "nsplit_loop div_char len max_num inb out index_in i tq num =
     (if i < len \<and> num < max_num
      then (case rd inb index_in of
              None \<Rightarrow> None
            | Some c0 \<Rightarrow>
                if c0 = NUL then Some (inb, out, index_in, num)
                else (case (if c0 = CHR 0x22 then nsplit_quote inb out index_in tq num
                            else Some (tq, out, inb)) of
                        None \<Rightarrow> None
                      | Some (tq1, out1, inb1) \<Rightarrow>
                          if inb1 ! index_in = div_char \<and> tq1 = 0
                          then (if num < length out1
                                then (let inb2 = inb1[index_in := NUL]
                                      in case nsplit_strip inb2 div_char len (index_in + 1) (i + 1)
                                                (index_in + 1) of
                                           None \<Rightarrow> None
                                         | Some (index_in2, i2, p2) \<Rightarrow>
                                             (case rd inb2 index_in2 of
                                                None \<Rightarrow> None
                                              | Some c2 \<Rightarrow>
                                                  nsplit_loop div_char len max_num inb2
                                                    (out1[num := p2]) index_in2 i2 tq1
                                                    (if c2 \<noteq> NUL then num + 1 else num)))
                                else None)
                          else nsplit_loop div_char len max_num inb1 out1 (index_in + 1) (i + 1)
                                 tq1 num))
      else Some (inb, out, index_in, num))"
  by pat_completeness auto
termination
proof -
  have mono: "i \<le> fst (snd r)"
    if "nsplit_strip inb div_char len index_in i p = Some r" for inb div_char len index_in i p r
    using that
  proof (induction inb div_char len index_in i p rule: nsplit_strip.induct)
    case (1 inb div_char len index_in i p)
    show ?case
    proof (cases "i < len \<and> (\<exists>c. rd inb index_in = Some c \<and> c \<noteq> NUL \<and> c = div_char)")
      case True
      then have "nsplit_strip inb div_char len index_in i p
                 = nsplit_strip inb div_char len (index_in + 1) (i + 1) (p + 1)"
        by (subst nsplit_strip.simps) auto
      with "1.prems" have "nsplit_strip inb div_char len (index_in + 1) (i + 1) (p + 1) = Some r"
        by simp
      with True "1.IH" have "i + 1 \<le> fst (snd r)" by blast
      then show ?thesis by simp
    next
      case False
      with "1.prems" have "r = (index_in, i, p)"
        by (subst (asm) nsplit_strip.simps) (auto split: if_splits option.splits)
      then show ?thesis by simp
    qed
  qed
  show ?thesis
    by (relation "measure (\<lambda>(div_char, len, max_num, inb, out, index_in, i, tq, num). len - i)")
      (auto dest!: mono)
qed

declare nsplit_find_quote.simps [simp del]
declare nsplit_loop.simps [simp del]

text \<open>
  \<^verbatim>\<open>nsplit\<close>: the result is the return value together with the array and the pointer
  table as the call leaves them.
\<close>

definition nsplit ::
  "char list \<Rightarrow> char \<Rightarrow> nat list \<Rightarrow> nat \<Rightarrow> (int \<times> char list \<times> nat list) option" where
  "nsplit inb div_char out max_num =
     (case strlen inb of
        None \<Rightarrow> None
      | Some len \<Rightarrow>
          (if 0 < length out
           then (case nsplit_loop div_char len max_num inb (out[0 := 0]) 0 0 0 1 of
                   None \<Rightarrow> None
                 | Some (inb1, out1, index_in, num) \<Rightarrow>
                     if index_in < length inb1
                     then Some (int num, inb1[index_in := NUL], out1)
                     else None)
           else None))"

text \<open>The tokens a call of \<^verbatim>\<open>nsplit\<close> leaves: \<^verbatim>\<open>argv[0 .. argc - 1]\<close> read as C strings.\<close>

definition tokens :: "int \<times> char list \<times> nat list \<Rightarrow> string list" where
  "tokens r = (case r of (n, buf, out) \<Rightarrow> map (cstr buf) (take (nat n) out))"

section \<open>console.c: the ring buffers\<close>

text \<open>
  \<^verbatim>\<open>CONSOLE_BUFFER\<close>: the array behind \<^verbatim>\<open>buffer\<close>, the two free-running 16-bit indices and
  the length. The calls that mask and unmask interrupts around the index reads have no
  effect on the buffer in a sequential run and are left out.
\<close>

record CONSOLE_BUFFER =
  buffer :: "char list"
  index_in :: u16
  index_out :: u16
  length' :: u16

definition CONSOLE_RX_BUF_LEN :: nat where "CONSOLE_RX_BUF_LEN = 320"
definition CONSOLE_TX_BUF_LEN :: nat where "CONSOLE_TX_BUF_LEN = 1024"

definition console_init_buffer :: "CONSOLE_BUFFER \<Rightarrow> CONSOLE_BUFFER" where
  "console_init_buffer buf = buf\<lparr>index_in := 0, index_out := 0\<rparr>"

definition console_is_buffer_full :: "CONSOLE_BUFFER \<Rightarrow> bool" where
  "console_is_buffer_full buf = (index_in buf - index_out buf \<ge> length' buf)"

definition console_get_buffered_length :: "CONSOLE_BUFFER \<Rightarrow> u16" where
  "console_get_buffered_length buf = index_in buf - index_out buf"

definition console_enq_buffer :: "char \<Rightarrow> CONSOLE_BUFFER \<Rightarrow> bool \<times> CONSOLE_BUFFER" where
  "console_enq_buffer ch buf =
     (if console_is_buffer_full buf = False
      then (let i = index_in buf mod length' buf
            in (True, buf\<lparr>buffer := (buffer buf)[unat i := ch], index_in := index_in buf + 1\<rparr>))
      else (False, buf))"

text \<open>
  \<^verbatim>\<open>console_deq_buffer\<close> stores through \<^verbatim>\<open>ch\<close> only when it returns true; the model takes
  the value behind \<^verbatim>\<open>ch\<close> before the call and returns the one after it.
\<close>

definition console_deq_buffer :: "CONSOLE_BUFFER \<Rightarrow> char \<Rightarrow> bool \<times> char \<times> CONSOLE_BUFFER" where
  "console_deq_buffer buf ch =
     (let in_copy = index_in buf;
          out_copy = index_out buf
      in if in_copy \<noteq> out_copy
         then (let i = out_copy mod length' buf;
                   c = buffer buf ! unat i;
                   i1 = i + 1;
                   b1 = buf\<lparr>index_out := index_out buf + 1\<rparr>;
                   b2 = (if index_in b1 = index_out b1
                         then b1\<lparr>index_in := i1, index_out := i1\<rparr> else b1)
               in (True, c, b2))
         else (False, ch, buf))"

text \<open>
  The receive buffer as console.c declares it, \<^verbatim>\<open>{rx_buf_inst, 0, 0, CONSOLE_RX_BUF_LEN}\<close>,
  with the array zeroed as a C static is.
\<close>

definition rx_buffer_init :: CONSOLE_BUFFER where
  "rx_buffer_init =
     \<lparr>buffer = replicate CONSOLE_RX_BUF_LEN NUL, index_in = 0, index_out = 0,
      length' = of_nat CONSOLE_RX_BUF_LEN\<rparr>"

text \<open>
  Sequences of buffer operations. A run records, in order, the characters whose enqueue
  returned true and the characters the dequeues returned.
\<close>

datatype rb_op = Enq char | Deq

record rb_trace =
  ring :: CONSOLE_BUFFER
  accepted :: "char list"
  delivered :: "char list"

definition rb_step :: "rb_op \<Rightarrow> rb_trace \<Rightarrow> rb_trace" where
  "rb_step op t =
     (case op of
        Enq ch \<Rightarrow>
          (let (ok, b) = console_enq_buffer ch (ring t)
           in t\<lparr>ring := b, accepted := (if ok then accepted t @ [ch] else accepted t)\<rparr>)
      | Deq \<Rightarrow>
          (let (ok, c, b) = console_deq_buffer (ring t) NUL
           in t\<lparr>ring := b, delivered := (if ok then delivered t @ [c] else delivered t)\<rparr>))"

definition rb_run :: "rb_op list \<Rightarrow> rb_trace \<Rightarrow> rb_trace" where
  "rb_run ops t = foldl (\<lambda>t op. rb_step op t) t ops"

definition rb_start :: "CONSOLE_BUFFER \<Rightarrow> rb_trace" where
  "rb_start buf = \<lparr>ring = console_init_buffer buf, accepted = [], delivered = []\<rparr>"

text \<open>
  A run on the receive buffer that carries the indices across the 16-bit wrap without the
  buffer ever running empty: one byte, then 65279 rounds of enqueue and dequeue, one more
  round that enqueues \<open>o\<close>, 255 enqueues of \<open>b\<close>, an enqueue of \<open>n\<close>, and a dequeue.
\<close>

definition rx_wrap_ops :: "rb_op list" where
  "rx_wrap_ops =
     Enq (CHR ''a'') # concat (replicate 65279 [Enq (CHR ''a''), Deq])
       @ [Enq (CHR ''o''), Deq] @ replicate 255 (Enq (CHR ''b'')) @ [Enq (CHR ''n''), Deq]"

section \<open>commands.c: state and handlers\<close>

record REPLAY_STRUCT =
  replay_timer :: u32
  period :: u32
  count :: u32
  disable_newline :: bool

text \<open>
  The state the command layer works on: the time base, the RTC peripheral, the receive
  ring and the statics of \<^verbatim>\<open>console_read_line\<close>, the statics of commands.c, the SysTick
  and clock-tree registers that the boot loader jump resets, and the character stream
  handed to \<^verbatim>\<open>printf\<close> (what \<^verbatim>\<open>__io_putchar\<close> then does with each character, UART,
  transmit ring or nothing, is below this model). The tokenised command line is kept as
  the buffer plus the offsets of the tokens in it, as \<^verbatim>\<open>argv\<close> points into
  \<^verbatim>\<open>command_buffer\<close>; offset 0 also stands for the null pointers that \<^verbatim>\<open>memset\<close>
  leaves in \<^verbatim>\<open>argv\<close>, none of which is read at or beyond \<^verbatim>\<open>argc\<close>.
\<close>

record sys =
  timer :: timer_state
  rtc :: rtc_hw
  rx_buffer :: CONSOLE_BUFFER
  read_echo_delay :: bool
  read_line_index :: u16
  rx_index_in_prev :: u16
  read_line_buffer :: "char list"
  unlocked_flag :: bool
  certify :: CERTIFY
  replay :: REPLAY_STRUCT
  command_buffer :: "char list"
  argc :: int
  argv :: "nat list"
  systick_ctrl :: u32
  systick_load :: u32
  systick_val :: u32
  rcc_deinit_done :: bool
  stdout :: string

definition printf :: "string \<Rightarrow> sys \<Rightarrow> sys" where
  "printf str s = s\<lparr>stdout := stdout s @ str\<rparr>"

subsection \<open>console.c: reading a line\<close>

text \<open>
  The body of the loop of \<^verbatim>\<open>console_read_line\<close> for one dequeued character; it returns
  \<^verbatim>\<open>rx_line_flag\<close> as the pass leaves it.
\<close>

definition read_line_char :: "char \<Rightarrow> sys \<Rightarrow> bool \<times> sys" where
  "read_line_char chartemp s =
     (if chartemp \<noteq> CHR 0x0D
      then (if unat (read_line_index s) < CONSOLE_RX_BUF_LEN
            then (let s1 = (if 32 \<le> (of_char chartemp :: nat) \<and> (of_char chartemp :: nat) \<le> 126
                            then (let s' = s\<lparr>read_line_buffer :=
                                               (read_line_buffer s)[unat (read_line_index s) := chartemp],
                                             read_line_index := read_line_index s + 1\<rparr>
                                  in if read_echo_delay s' = False then printf [chartemp] s' else s')
                            else s);
                      s2 = (if chartemp = CHR 0x7F \<or> chartemp = CHR 0x08
                            then (if read_line_index s1 > 0
                                  then (let s' = s1\<lparr>read_line_index := read_line_index s1 - 1\<rparr>;
                                            s'' = s'\<lparr>read_line_buffer :=
                                                      (read_line_buffer s')[unat (read_line_index s') := NUL]\<rparr>
                                        in if read_echo_delay s'' = False then printf [chartemp] s''
                                           else s'')
                                  else s1)
                            else s1)
                  in (False, s2))
            else (False, (printf (''Console buffer overrun 320'' @ CRLF) s)\<lparr>read_line_index := 0\<rparr>))
      else (let s1 = (if unat (read_line_index s) \<ge> CONSOLE_RX_BUF_LEN
                      then s\<lparr>read_line_index := of_nat (CONSOLE_RX_BUF_LEN - 1)\<rparr> else s);
                s2 = s1\<lparr>read_line_buffer := (read_line_buffer s1)[unat (read_line_index s1) := NUL]\<rparr>
            in (True, if read_echo_delay s2 = False then printf CRLF s2 else s2)))"

text \<open>
  \<^verbatim>\<open>while (console_deq_buffer(&rx_buffer, &chartemp) && (rx_line_flag == false))\<close>: the
  dequeue comes first, so the pass that finds the flag set has already taken a character
  out of the ring.
\<close>

function console_read_line_loop :: "bool \<Rightarrow> sys \<Rightarrow> bool \<times> sys" where
  "console_read_line_loop rx_line_flag s =
     (case console_deq_buffer (rx_buffer s) NUL of
        (ok, chartemp, b) \<Rightarrow>
          if ok \<and> rx_line_flag = False
          then (case read_line_char chartemp (s\<lparr>rx_buffer := b\<rparr>) of
                  (flag, s1) \<Rightarrow> console_read_line_loop flag s1)
          else (rx_line_flag, s\<lparr>rx_buffer := b\<rparr>))"
  by pat_completeness auto
termination
proof -
  have keep: "rx_buffer (snd (read_line_char c s)) = rx_buffer s" for c s
    by (simp add: read_line_char_def printf_def Let_def)
  have less: "unat (index_in b - index_out b) < unat (index_in a - index_out a)"
    if "console_deq_buffer a ch = (True, c, b)" for a ch c b
  proof -
    have ne: "index_in a \<noteq> index_out a"
      using that by (auto simp add: console_deq_buffer_def Let_def)
    then have pos: "index_in a - index_out a \<noteq> 0" by simp
    then have p: "0 < unat (index_in a - index_out a)" by (simp add: unat_gt_0)
    show ?thesis
    proof (cases "index_in a = index_out a + 1")
      case True
      then have "index_in b - index_out b = 0"
        using that ne by (auto simp add: console_deq_buffer_def Let_def)
      then show ?thesis using p by simp
    next
      case False
      then have "index_in b - index_out b = (index_in a - index_out a) - 1"
        using that ne by (auto simp add: console_deq_buffer_def Let_def)
      then have "unat (index_in b - index_out b) = unat (index_in a - index_out a) - 1"
        using pos by (simp add: unat_minus_one)
      then show ?thesis using p by simp
    qed
  qed
  show ?thesis
  proof (relation "measure (\<lambda>(f, s). unat (index_in (rx_buffer s) - index_out (rx_buffer s)))",
      goal_cases)
    case 1
    show ?case by simp
  next
    case (2 rx_line_flag s ok rest chartemp b flag s1)
    have d: "console_deq_buffer (rx_buffer s) NUL = (True, chartemp, b)"
      using 2(1) [symmetric] 2(2) [symmetric] 2(3) by simp
    have k: "rx_buffer s1 = b"
      using keep [of chartemp "s\<lparr>rx_buffer := b\<rparr>"] 2(4) [symmetric] by simp
    show ?case using less [OF d] k by simp
  qed
qed

declare console_read_line_loop.simps [simp del]

text \<open>
  \<^verbatim>\<open>console_read_line\<close>: the model takes the content of \<^verbatim>\<open>buf\<close> before the call and
  returns the flag, the content of \<^verbatim>\<open>buf\<close> after the call and the state.
\<close>

definition console_read_line :: "char list \<Rightarrow> nat \<Rightarrow> sys \<Rightarrow> bool \<times> char list \<times> sys" where
  "console_read_line buf max_len s0 =
     (let rx_index_in_copy = index_in (rx_buffer s0);
          (rx_line_flag, s1) =
             (if rx_index_in_copy \<noteq> rx_index_in_prev s0
              then (False, s0\<lparr>rx_index_in_prev := rx_index_in_copy\<rparr>)
              else console_read_line_loop False s0)
      in if rx_line_flag = True
         then (let s2 = (if read_echo_delay s1 = True
                         then printf (cstr (read_line_buffer s1) 0 @ CRLF) s1 else s1);
                   n = (if max_len > CONSOLE_RX_BUF_LEN then CONSOLE_RX_BUF_LEN else max_len);
                   buf1 = take n (read_line_buffer s2) @ drop n buf
               in (True, buf1, s2\<lparr>read_line_index := 0\<rparr>))
         else (False, buf, s1))"

text \<open>\<^verbatim>\<open>nvic_safe_system_reset\<close> (nvic.c): the body is commented out in the source.\<close>

definition nvic_safe_system_reset :: "sys \<Rightarrow> sys" where
  "nvic_safe_system_reset s = s"

definition bootloader_start :: "sys \<Rightarrow> sys" where
  "bootloader_start s = nvic_safe_system_reset (s\<lparr>rtc := rtc_set_loader_flag (rtc s)\<rparr>)"

definition cmd_version :: "int \<Rightarrow> string list \<Rightarrow> sys \<Rightarrow> sys" where
  "cmd_version n args s = printf ('' HW-ID: 0x0'' @ CRLF) s"

definition cmd_clear :: "int \<Rightarrow> string list \<Rightarrow> sys \<Rightarrow> sys" where
  "cmd_clear n args s = printf [CHR 0x1B, CHR ''c''] s"

definition cmd_uptime :: "int \<Rightarrow> string list \<Rightarrow> sys \<Rightarrow> sys" where
  "cmd_uptime n args s =
     (let (up, t1) = timer_get_uptime (timer s)
      in printf (''Uptime: '' @ fmt_ld up @ CRLF) (s\<lparr>timer := t1\<rparr>))"

text \<open>The block of \<^verbatim>\<open>cmd_clock\<close> that decodes \<^verbatim>\<open>argv[1..6]\<close> into the two structures.\<close>

definition cmd_clock_decode ::
  "string list \<Rightarrow> RTC_TimeTypeDef \<Rightarrow> RTC_DateTypeDef \<Rightarrow> RTC_TimeTypeDef \<times> RTC_DateTypeDef" where
  "cmd_clock_decode args rtc_time rtc_date =
     (let year0 = strtoul (args ! 1);
          year = (if year0 > 2000 then year0 - 2000 else year0);
          d1 = rtc_date\<lparr>Year := ucast year,
                         Month := ucast (strtoul (args ! 2)),
                         Date := ucast (strtoul (args ! 3))\<rparr>;
          t1 = rtc_time\<lparr>Hours := ucast (strtoul (args ! 4)),
                         Minutes := ucast (strtoul (args ! 5)),
                         Seconds := ucast (strtoul (args ! 6))\<rparr>
      in (t1, d1))"

definition clock_line :: "RTC_TimeTypeDef \<Rightarrow> RTC_DateTypeDef \<Rightarrow> string" where
  "clock_line rtc_time rtc_date =
     ''OK, 20'' @ fmt_02d (Year rtc_date) @ '' '' @ fmt_02d (Month rtc_date) @ '' ''
       @ fmt_02d (Date rtc_date) @ ''  '' @ fmt_02d (Hours rtc_time) @ '' ''
       @ fmt_02d (Minutes rtc_time) @ '' '' @ fmt_02d (Seconds rtc_time) @ CRLF"

definition cmd_clock :: "int \<Rightarrow> string list \<Rightarrow> sys \<Rightarrow> sys" where
  "cmd_clock n args s =
     (let (rtc_time, rtc_date) = rtc_read (rtc s)
      in if n = 7 \<and> unlocked_flag s
         then (let (t1, d1) = cmd_clock_decode args rtc_time rtc_date;
                   (ok, t2, d2) = rtc_validate_and_correct t1 d1;
                   s1 = s\<lparr>rtc := rtc_write t2 d2 (rtc s)\<rparr>
               in printf (clock_line t2 d2) s1)
         else printf (clock_line rtc_time rtc_date) s)"

definition cmd_temp_status :: "int \<Rightarrow> string list \<Rightarrow> sys \<Rightarrow> sys" where
  "cmd_temp_status n args s = printf (''no values'' @ CRLF) s"

definition cmd_reset :: "int \<Rightarrow> string list \<Rightarrow> sys \<Rightarrow> sys" where
  "cmd_reset n args s =
     (if n = 1 \<and> unlocked_flag s then s else printf (''Error'' @ CRLF) s)"

definition cmd_off :: "int \<Rightarrow> string list \<Rightarrow> sys \<Rightarrow> sys" where
  "cmd_off n args s =
     (if n = 1 \<and> unlocked_flag s then s else printf (''Error'' @ CRLF) s)"

definition cmd_load :: "int \<Rightarrow> string list \<Rightarrow> sys \<Rightarrow> sys" where
  "cmd_load n args s =
     (if n = 1 \<and> unlocked_flag s then bootloader_start s else printf (''Error'' @ CRLF) s)"

definition cmd_password :: "int \<Rightarrow> string list \<Rightarrow> sys \<Rightarrow> sys" where
  "cmd_password n args s0 =
     (let s = s0\<lparr>unlocked_flag := False\<rparr>
      in if n < 2
         then (let (c1, t1) = auth_renew_values (certify s) (timer s);
                   (r, c2) = auth_unlock c1 0
               in printf (''OK '' @ fmt_lu (z c2) @ '' '' @ fmt_lu (w c2) @ CRLF)
                    (s\<lparr>certify := c2, timer := t1\<rparr>))
         else (let response = strtoul (args ! 1);
                   (unlocked0, c1) = auth_unlock (certify s) response;
                   unlocked = (if \<not> unlocked0 then ''N3k0c0'' = args ! 1 else unlocked0);
                   s1 = s\<lparr>certify := c1\<rparr>
               in if unlocked then (printf (''OK'' @ CRLF) s1)\<lparr>unlocked_flag := True\<rparr>
                  else printf (''ERROR'' @ CRLF) s1))"

section \<open>commands.c: the dispatcher\<close>

text \<open>
  \<^verbatim>\<open>COMMAND_STRUCT\<close>: the command text, the handler (\<open>None\<close> for the null pointer of the
  terminating entry) and the help text.
\<close>

record COMMAND_STRUCT =
  command :: string
  CMD_FUNC :: "(int \<Rightarrow> string list \<Rightarrow> sys \<Rightarrow> sys) option"
  help_text :: string

text \<open>
  \<^verbatim>\<open>command_table\<close> as compiled (define.h defines \<^verbatim>\<open>DISABLE_LED\<close> and
  \<^verbatim>\<open>DISABLE_LOGGING\<close>). \<^verbatim>\<open>cmd_help\<close> pages its output by the free space of the transmit
  ring, which lies below \<^verbatim>\<open>printf\<close>; its handler is a parameter of the table, and what
  is proved of the dispatcher holds for every handler in that place.
\<close>

definition command_table :: "(int \<Rightarrow> string list \<Rightarrow> sys \<Rightarrow> sys) \<Rightarrow> COMMAND_STRUCT list" where
  "command_table cmd_help =
     [\<lparr>command = ''help'', CMD_FUNC = Some cmd_help, help_text = ''Shows available commands''\<rparr>,
      \<lparr>command = ''?'', CMD_FUNC = Some cmd_help, help_text = ''Shows available commands''\<rparr>,
      \<lparr>command = ''version'', CMD_FUNC = Some cmd_version, help_text = ''Show firmware version''\<rparr>,
      \<lparr>command = ''clear'', CMD_FUNC = Some cmd_clear, help_text = ''Clear the terminal''\<rparr>,
      \<lparr>command = ''uptime'', CMD_FUNC = Some cmd_uptime, help_text = ''Uptime in seconds''\<rparr>,
      \<lparr>command = ''clock'', CMD_FUNC = Some cmd_clock,
        help_text = ''Clock; year, month, day, hour, minute, sec''\<rparr>,
      \<lparr>command = ''temp_stat'', CMD_FUNC = Some cmd_temp_status,
        help_text = ''show temperature of sensors <replay period [ms], 0=stop replay>''\<rparr>,
      \<lparr>command = ''password'', CMD_FUNC = Some cmd_password,
        help_text = ''password to unlock certain commands''\<rparr>,
      \<lparr>command = ''reset'', CMD_FUNC = Some cmd_reset, help_text = ''Reset the CPU''\<rparr>,
      \<lparr>command = ''off'', CMD_FUNC = Some cmd_off, help_text = ''Switch off the power''\<rparr>,
      \<lparr>command = ''load'', CMD_FUNC = Some cmd_load, help_text = ''Load new software''\<rparr>,
      \<lparr>command = '''', CMD_FUNC = None, help_text = ''''\<rparr>]"

definition command_num :: nat where
  "command_num = 12"

definition cmd_set_replay :: "u32 \<Rightarrow> sys \<Rightarrow> sys" where
  "cmd_set_replay p s =
     (let (tk, t1) = timer_reset_module_timer (timer s);
          r1 = (replay s)\<lparr>replay_timer := tk, period := p\<rparr>;
          r2 = (if p = 0 then r1\<lparr>disable_newline := False, count := 0\<rparr> else r1)
      in s\<lparr>timer := t1, replay := r2\<rparr>)"

text \<open>
  The first half of \<^verbatim>\<open>command_execute\<close>: take a line if one is complete (re-tokenising
  the stored command for \<open>!\<close>, tokenising the new line otherwise), else check the replay
  timer. The result is \<^verbatim>\<open>cmd_execute_flag\<close> and the state. The local \<^verbatim>\<open>console_buffer\<close>
  is indeterminate before \<^verbatim>\<open>console_read_line\<close> fills it and is read only after that;
  the model starts it zeroed.
\<close>

definition command_receive :: "sys \<Rightarrow> (bool \<times> sys) option" where
  "command_receive s0 =
     (case console_read_line (replicate CONSOLE_RX_BUF_LEN NUL) CONSOLE_RX_BUF_LEN s0 of
        (got, console_buffer, s1) \<Rightarrow>
          if got
          then (let s2 = cmd_set_replay 0 s1
                in if console_buffer ! 0 = CHR ''!''
                   then (let s3 = printf ''#'' s2
                         in case nsplit (command_buffer s3) (CHR '' '') (argv s3)
                                   (CONSOLE_RX_BUF_LEN div 2) of
                              None \<Rightarrow> None
                            | Some (n, buf, out) \<Rightarrow>
                                (let s4 = s3\<lparr>command_buffer := buf, argv := out, argc := n\<rparr>;
                                     s5 = foldl (\<lambda>s k. printf (cstr buf (out ! k) @ '' '') s) s4
                                            [0..<nat n]
                                 in Some (True, printf CRLF s5)))
                   else (case nsplit console_buffer (CHR '' '')
                                (replicate (CONSOLE_RX_BUF_LEN div 2) 0)
                                (CONSOLE_RX_BUF_LEN div 2) of
                           None \<Rightarrow> None
                         | Some (n, buf, out) \<Rightarrow>
                             Some (True, s2\<lparr>command_buffer := buf, argv := out, argc := n\<rparr>)))
          else if period (replay s1) \<noteq> 0
          then (case timer_get_elapsed_module_timer (replay_timer (replay s1)) (timer s1) of
                  (elapsed, t1) \<Rightarrow>
                    if elapsed \<ge> period (replay s1)
                    then Some (True, s1\<lparr>timer := t1,
                                       replay := (replay s1)\<lparr>count := count (replay s1) + 1\<rparr>\<rparr>)
                    else Some (False, s1\<lparr>timer := t1\<rparr>))
          else Some (False, s1))"

text \<open>
  The \<^verbatim>\<open>for\<close> loop over the table, from index \<open>i\<close> on: the index the loop ends with and
  the handler it calls at the \<^verbatim>\<open>break\<close>, if any. \<^verbatim>\<open>strcmp\<close> is 0 exactly for equal
  strings.
\<close>

fun command_scan ::
  "COMMAND_STRUCT list \<Rightarrow> string \<Rightarrow> nat \<Rightarrow> nat \<times> (int \<Rightarrow> string list \<Rightarrow> sys \<Rightarrow> sys) option" where
  "command_scan [] a0 i = (i, None)"
| "command_scan (e # es) a0 i =
     (case CMD_FUNC e of
        None \<Rightarrow> command_scan es a0 (i + 1)
      | Some f \<Rightarrow> if a0 = command e then (i, Some f) else command_scan es a0 (i + 1))"

text \<open>The second half of \<^verbatim>\<open>command_execute\<close>, run when \<^verbatim>\<open>cmd_execute_flag\<close> is set.\<close>

definition command_dispatch :: "(int \<Rightarrow> string list \<Rightarrow> sys \<Rightarrow> sys) \<Rightarrow> sys \<Rightarrow> sys" where
  "command_dispatch cmd_help s =
     (case command_scan (command_table cmd_help) (cstr (command_buffer s) (argv s ! 0)) 0 of
        (i, f) \<Rightarrow>
          (let s1 = (case f of
                       None \<Rightarrow> s
                     | Some g \<Rightarrow> g (argc s)
                                  (map (cstr (command_buffer s)) (take (nat (argc s)) (argv s))) s);
               s2 = (if i \<ge> command_num - 1
                     then (if length (cstr (command_buffer s1) (argv s1 ! 0)) > 0
                           then printf ''Command not found!'' s1 else s1)
                     else s1)
           in if \<not> disable_newline (replay s2) then printf (CRLF @ ''#'') s2 else s2))"

definition command_execute :: "(int \<Rightarrow> string list \<Rightarrow> sys \<Rightarrow> sys) \<Rightarrow> sys \<Rightarrow> sys option" where
  "command_execute cmd_help s =
     (case command_receive s of
        None \<Rightarrow> None
      | Some (cmd_execute_flag, s1) \<Rightarrow>
          Some (if cmd_execute_flag then command_dispatch cmd_help s1 else s1))"

section \<open>bootloader.c\<close>

definition START_ADDRESS :: u32 where "START_ADDRESS = 0x0BF90004"
definition BOOTLOADER_STACK :: u32 where "BOOTLOADER_STACK = START_ADDRESS - 4"

text \<open>
  How a call of \<^verbatim>\<open>bootloader_jump\<close> ends: it returns to its caller, or control has been
  handed to \<^verbatim>\<open>SysMemBootJump\<close> with a stack pointer and a start address.
\<close>

datatype boot_outcome =
  Returns sys
  | Jumps u32 u32 sys

text \<open>
  Modelled from the spec: \<^verbatim>\<open>SysMemBootJump\<close> is declared in bootloader.h and defined in
  the start-up assembly, which is not among the sources. The specification says of the
  jump actions that they transfer control to a fixed flash address with a freshly computed
  stack pointer, never return, and nothing after them executes.
\<close>

definition SysMemBootJump :: "u32 \<Rightarrow> u32 \<Rightarrow> sys \<Rightarrow> boot_outcome" where
  "SysMemBootJump bootloader_stack start_address s = Jumps bootloader_stack start_address s"

definition bootloader_jump :: "sys \<Rightarrow> boot_outcome" where
  "bootloader_jump s0 =
     (let (flag, h1) = rtc_get_loader_flag (rtc s0);
          s1 = s0\<lparr>rtc := h1\<rparr>
      in if flag
         then (let s2 = s1\<lparr>rcc_deinit_done := True\<rparr>;
                   s3 = s2\<lparr>systick_ctrl := 0, systick_load := 0, systick_val := 0\<rparr>;
                   s4 = s3\<lparr>timer := set_PRIMASK 1 (timer s3)\<rparr>
               in SysMemBootJump BOOTLOADER_STACK START_ADDRESS s4)
         else Returns s1)"

section \<open>A concrete state\<close>

text \<open>
  The state after reset as the static initialisers of the sources give it, with the
  peripherals cleared; the closed examples below start from it.
\<close>

definition rtc_hw_reset :: rtc_hw where
  "rtc_hw_reset =
     \<lparr>bkp = (\<lambda>r. 0),
      calendar_time = \<lparr>Hours = 0, Minutes = 0, Seconds = 0, TimeFormat = 0, SubSeconds = 0,
                       SecondFraction = 0, DayLightSaving = 0, StoreOperation = 0\<rparr>,
      calendar_date = \<lparr>WeekDay = 1, Month = 1, Date = 1, Year = 0\<rparr>,
      rtcapb_clk_enabled = False, pwr_clk_enabled = False, bkup_access_enabled = False\<rparr>"

definition sys_reset :: sys where
  "sys_reset =
     \<lparr>timer = \<lparr>timer_data = timer_data_init, timer_data_red = timer_data_red_init,
               primask = 0\<rparr>,
      rtc = rtc_hw_reset,
      rx_buffer = rx_buffer_init,
      read_echo_delay = False,
      read_line_index = 0,
      rx_index_in_prev = 0,
      read_line_buffer = replicate CONSOLE_RX_BUF_LEN NUL,
      unlocked_flag = False,
      certify = \<lparr>w = 0, z = 0\<rparr>,
      replay = \<lparr>replay_timer = 0, period = 0, count = 0, disable_newline = False\<rparr>,
      command_buffer = replicate CONSOLE_RX_BUF_LEN NUL,
      argc = 0,
      argv = replicate 160 0,
      systick_ctrl = 0, systick_load = 0, systick_val = 0,
      rcc_deinit_done = False,
      stdout = []\<rparr>"

text \<open>
  The reset state after the receive interrupt has stored the bytes \<open>bytes\<close> in the
  receive ring and one pass of the main loop has seen the write index at rest.
\<close>

definition sys_received :: "char list \<Rightarrow> sys" where
  "sys_received bytes =
     sys_reset\<lparr>rx_buffer :=
                 \<lparr>buffer = bytes @ replicate (CONSOLE_RX_BUF_LEN - length bytes) NUL,
                  index_in = of_nat (length bytes), index_out = 0,
                  length' = of_nat CONSOLE_RX_BUF_LEN\<rparr>,
               rx_index_in_prev := of_nat (length bytes)\<rparr>"

section \<open>Vocabulary of the claims\<close>

text \<open>
  The range of a clock write in the words of the claim: year field 16..99, month 1..12,
  day 1..31, hours at most 23, minutes and seconds at most 59.
\<close>

definition clock_fields_in_range :: "RTC_TimeTypeDef \<Rightarrow> RTC_DateTypeDef \<Rightarrow> bool" where
  "clock_fields_in_range t d \<longleftrightarrow>
     16 \<le> unat (Year d) \<and> unat (Year d) \<le> 99 \<and> 1 \<le> unat (Month d) \<and> unat (Month d) \<le> 12
     \<and> 1 \<le> unat (Date d) \<and> unat (Date d) \<le> 31 \<and> unat (Hours t) \<le> 23
     \<and> unat (Minutes t) \<le> 59 \<and> unat (Seconds t) \<le> 59"

text \<open>The six calendar fields: year, month, day, hours, minutes, seconds.\<close>

definition six_fields :: "RTC_TimeTypeDef \<Rightarrow> RTC_DateTypeDef \<Rightarrow> u8 list" where
  "six_fields t d = [Year d, Month d, Date d, Hours t, Minutes t, Seconds t]"

text \<open>
  The bytes a ring holds, oldest first: the array read at \<open>index_out\<close>, \<open>index_out + 1\<close>,
  ... reduced modulo the length, as \<^verbatim>\<open>console_deq_buffer\<close> would read them.
\<close>

definition rb_contents :: "CONSOLE_BUFFER \<Rightarrow> char list" where
  "rb_contents b =
     map (\<lambda>k. buffer b ! unat ((index_out b + of_nat k) mod length' b))
       [0 ..< unat (index_in b - index_out b)]"

text \<open>
  A ring whose array has as many elements as its length says, and whose length divides
  \<open>2 ^ 16\<close>, the modulus of the indices; the transmit ring (length 1024) is one.
\<close>

definition rb_pow2 :: "CONSOLE_BUFFER \<Rightarrow> bool" where
  "rb_pow2 b \<longleftrightarrow> 0 < unat (length' b) \<and> unat (length' b) dvd 65536
                 \<and> length (buffer b) = unat (length' b)"

definition tx_buffer_init :: CONSOLE_BUFFER where
  "tx_buffer_init =
     \<lparr>buffer = replicate CONSOLE_TX_BUF_LEN NUL, index_in = 0, index_out = 0,
      length' = of_nat CONSOLE_TX_BUF_LEN\<rparr>"

section \<open>Word arithmetic used below\<close>

lemma and_ffff_unat: "unat ((x::u32) AND 0xFFFF) = unat x mod 65536"
proof -
  have "(x AND 0xFFFF) = take_bit 16 x"
    by (simp add: take_bit_eq_mask mask_eq_exp_minus_1)
  then have "unat (x AND 0xFFFF) = take_bit 16 (unat x)"
    by (simp only: unsigned_take_bit_eq)
  then show ?thesis by (simp add: take_bit_eq_mod)
qed

lemma drop16_unat: "unat (drop_bit 16 (x::u32)) = unat x div 65536"
proof -
  have "unat (drop_bit 16 x) = drop_bit 16 (unat x)" by (rule unat_drop_bit_eq)
  then show ?thesis by (simp add: drop_bit_eq_div)
qed

lemma lcg_step_unat:
  assumes "a \<le> 40000"
  shows "unat (of_nat a * ((x::u32) AND 0xFFFF) + drop_bit 16 x + 1)
         = a * (unat x mod 65536) + unat x div 65536 + 1"
proof -
  have m: "unat x mod 65536 \<le> 65535" by simp
  have "unat x < 2 ^ 32" using unsigned_less [of x, where 'a=nat] by simp
  then have d: "unat x div 65536 < 65536" by simp
  have "a * (unat x mod 65536) \<le> 40000 * 65535" using assms m by (intro mult_mono) auto
  then have b: "a * (unat x mod 65536) + unat x div 65536 + 1 < 2 ^ 32" using d by simp
  have e: "of_nat a * (x AND 0xFFFF) + drop_bit 16 x + 1
           = (of_nat (a * (unat x mod 65536) + unat x div 65536 + 1) :: u32)"
    unfolding and_ffff_unat [symmetric] drop16_unat [symmetric] by simp
  have u: "unat (word_of_nat N :: u32) = N" if "N < 2 ^ 32" for N
    using that by (simp add: unat_of_nat)
  show ?thesis unfolding e by (rule u [OF b])
qed

section \<open>The authentication generator\<close>

text \<open>
  C1, as the code has it. One call of \<^verbatim>\<open>auth_unlock\<close> replaces the generator words by
  \<open>z' = 36967 * (z AND 0xFFFF) + (z >> 16) + 1\<close> and
  \<open>w' = 18001 * (w AND 0xFFFF) + (w >> 16) + 1\<close> (the multipliers of the source are 36967
  and 18001), and returns true exactly when the key equals \<open>(z' << 16) + w'\<close>. Read as
  unsigned numbers the two steps never overflow 32 bits; only the final sum wraps.
\<close>

theorem auth_unlock_lcg:
  "unat (z (snd (auth_unlock c key))) = 36967 * (unat (z c) mod 65536) + unat (z c) div 65536 + 1
   \<and> unat (w (snd (auth_unlock c key))) = 18001 * (unat (w c) mod 65536) + unat (w c) div 65536 + 1
   \<and> (fst (auth_unlock c key) \<longleftrightarrow>
        key = push_bit 16 (z (snd (auth_unlock c key))) + w (snd (auth_unlock c key)))"
proof -
  have zs: "z (snd (auth_unlock c key)) = of_nat 36967 * (z c AND 0xFFFF) + drop_bit 16 (z c) + 1"
    by (simp add: auth_unlock_def Let_def)
  have ws: "w (snd (auth_unlock c key)) = of_nat 18001 * (w c AND 0xFFFF) + drop_bit 16 (w c) + 1"
    by (simp add: auth_unlock_def Let_def)
  have r: "fst (auth_unlock c key) \<longleftrightarrow>
        key = push_bit 16 (z (snd (auth_unlock c key))) + w (snd (auth_unlock c key))"
    by (simp add: auth_unlock_def Let_def)
  show ?thesis
    unfolding zs ws using r lcg_step_unat [of 36967 "z c"] lcg_step_unat [of 18001 "w c"]
    unfolding zs ws by simp
qed

text \<open>
  C1 as the specification words it, with the multipliers 36969 and 18000, fails already at
  the state \<open>w = 1, z = 1\<close>: the code yields \<open>z' = 36968\<close> and \<open>w' = 18002\<close>.
\<close>

theorem auth_unlock_spec_constants_counterexample:
  "z (snd (auth_unlock \<lparr>w = 1, z = 1\<rparr> 0)) \<noteq> 36969 * (1 AND 0xFFFF) + drop_bit 16 1 + 1
   \<and> w (snd (auth_unlock \<lparr>w = 1, z = 1\<rparr> 0)) \<noteq> 18000 * (1 AND 0xFFFF) + drop_bit 16 1 + 1"
  by (simp add: auth_unlock_def Let_def)

section \<open>The mirrored tick counter\<close>

text \<open>
  C4. When the primary tick differs from the complement of its mirror, \<^verbatim>\<open>timer_get_tick\<close>
  returns 0, clears the module status, and ORs bit 0 (\<^verbatim>\<open>TIMER_MEM_ERROR\<close>) into the error
  mask, keeping the bits already recorded. The call returns (the model is a total function
  producing a result and a successor state) with PRIMASK restored and the corrupted
  counter left as it was.
\<close>

theorem timer_get_tick_corrupted:
  assumes "tick (timer_data t) \<noteq> (tick (timer_data_red t) XOR 0xFFFFFFFF)"
  shows "fst (timer_get_tick t) = 0
    \<and> status (timer_data (snd (timer_get_tick t))) = False
    \<and> error (timer_data (snd (timer_get_tick t))) = error (timer_data t) OR 1
    \<and> bit (error (timer_data (snd (timer_get_tick t)))) 0
    \<and> primask (snd (timer_get_tick t)) = primask t
    \<and> tick (timer_data (snd (timer_get_tick t))) = tick (timer_data t)"
  using assms
  by (simp add: timer_get_tick_def timer_error_def disable_irq_def set_PRIMASK_def Let_def
      bit_or_iff)

theorem timer_get_tick_corrupted_witness:
  "tick (timer_data \<lparr>timer_data = timer_data_init\<lparr>tick := 5\<rparr>,
                      timer_data_red = timer_data_red_init, primask = 0\<rparr>)
     \<noteq> (tick (timer_data_red \<lparr>timer_data = timer_data_init\<lparr>tick := 5\<rparr>,
                      timer_data_red = timer_data_red_init, primask = 0\<rparr>) XOR 0xFFFFFFFF)
   \<and> fst (timer_get_tick \<lparr>timer_data = timer_data_init\<lparr>tick := 5\<rparr>,
                      timer_data_red = timer_data_red_init, primask = 0\<rparr>) = 0
   \<and> error (timer_data (snd (timer_get_tick \<lparr>timer_data = timer_data_init\<lparr>tick := 5\<rparr>,
                      timer_data_red = timer_data_red_init, primask = 0\<rparr>))) = 1"
  using timer_get_tick_corrupted [of "\<lparr>timer_data = timer_data_init\<lparr>tick := 5\<rparr>,
                      timer_data_red = timer_data_red_init, primask = 0\<rparr>"]
  by (simp add: timer_data_init_def timer_data_red_init_def)

section \<open>The watchdog flag\<close>

lemma wd_tag_of_set:
  "(ucast (drop_bit 24 (push_bit 24 (ucast WD_FLAG :: u32) OR (val AND 0x00FFFFFF))) :: u8)
   = WD_FLAG"
proof -
  have "drop_bit 24 (val AND (0x00FFFFFF::u32)) = 0"
    by (simp only: drop_bit_and) simp
  then show ?thesis
    unfolding WD_FLAG_def by simp
qed

lemma wd_payload_of_set:
  "(push_bit 24 (ucast WD_FLAG :: u32) OR (val AND 0x00FFFFFF)) AND 0x00FFFFFF
   = val AND 0x00FFFFFF"
  unfolding WD_FLAG_def by (simp add: bit.conj_disj_distrib2)

lemma rtc_get_wd_flag_hit:
  assumes "(ucast (drop_bit 24 (bkp h RTC_WD_REG)) :: u8) = WD_FLAG"
  shows "rtc_get_wd_flag pc h
         = (True, bkp h RTC_WD_REG AND 0x00FFFFFF, h\<lparr>bkp := (bkp h)(RTC_WD_REG := 0)\<rparr>)"
  using assms
  by (simp add: rtc_get_wd_flag_def HAL_RTCEx_BKUPRead_def HAL_RTCEx_BKUPWrite_def Let_def)

lemma rtc_get_wd_flag_miss:
  assumes "(ucast (drop_bit 24 (bkp h RTC_WD_REG)) :: u8) \<noteq> WD_FLAG"
  shows "rtc_get_wd_flag pc h = (False, pc, h)"
  using assms
  by (simp add: rtc_get_wd_flag_def HAL_RTCEx_BKUPRead_def HAL_RTCEx_BKUPWrite_def Let_def)

lemma wd_tag_of_zero: "(ucast (drop_bit 24 (0::u32)) :: u8) \<noteq> WD_FLAG"
  by (simp add: WD_FLAG_def)

text \<open>
  C5. For a payload of at most 24 bits, \<^verbatim>\<open>rtc_set_wd_flag\<close> followed by
  \<^verbatim>\<open>rtc_get_wd_flag\<close> returns true, stores the payload behind \<^verbatim>\<open>pc\<close> and clears the
  register; a further \<^verbatim>\<open>rtc_get_wd_flag\<close> on the cleared register returns false and leaves
  the value behind its pointer alone. Whenever bits 31:24 of the register are not the
  watchdog tag, \<^verbatim>\<open>rtc_get_wd_flag\<close> returns false and changes neither the peripheral nor
  the value behind \<^verbatim>\<open>pc\<close>.
\<close>

theorem wd_flag_roundtrip:
  "(val AND 0x00FFFFFF = val \<longrightarrow>
      rtc_get_wd_flag pc (rtc_set_wd_flag val h)
        = (True, val, h\<lparr>bkp := (bkp h)(RTC_WD_REG := 0)\<rparr>)
      \<and> rtc_get_wd_flag pc' (h\<lparr>bkp := (bkp h)(RTC_WD_REG := 0)\<rparr>)
        = (False, pc', h\<lparr>bkp := (bkp h)(RTC_WD_REG := 0)\<rparr>))
   \<and> ((ucast (drop_bit 24 (bkp h RTC_WD_REG)) :: u8) \<noteq> WD_FLAG \<longrightarrow>
      rtc_get_wd_flag pc h = (False, pc, h))"
proof -
  let ?r = "push_bit 24 (ucast WD_FLAG :: u32) OR (val AND 0x00FFFFFF)"
  let ?h1 = "h\<lparr>bkp := (bkp h)(RTC_WD_REG := ?r)\<rparr>"
  let ?h2 = "h\<lparr>bkp := (bkp h)(RTC_WD_REG := 0)\<rparr>"
  have s: "rtc_set_wd_flag val h = ?h1"
    by (simp add: rtc_set_wd_flag_def HAL_RTCEx_BKUPWrite_def Let_def)
  have r1: "bkp ?h1 RTC_WD_REG = ?r" by simp
  have c1: "?h1\<lparr>bkp := (bkp ?h1)(RTC_WD_REG := 0)\<rparr> = ?h2" by simp
  have g1: "rtc_get_wd_flag pc ?h1 = (True, val AND 0x00FFFFFF, ?h2)"
    using rtc_get_wd_flag_hit [of ?h1 pc] wd_tag_of_set [of val] wd_payload_of_set [of val]
    unfolding r1 c1 by simp
  have r2: "bkp ?h2 RTC_WD_REG = 0" by simp
  have g2: "rtc_get_wd_flag pc' ?h2 = (False, pc', ?h2)"
    by (rule rtc_get_wd_flag_miss) (simp only: r2 wd_tag_of_zero, simp)
  show ?thesis
  proof (intro conjI impI)
    assume v: "val AND 0x00FFFFFF = val"
    have e: "(True, val AND 0x00FFFFFF, ?h2) = (True, val, ?h2)" using v by simp
    show "rtc_get_wd_flag pc (rtc_set_wd_flag val h) = (True, val, ?h2)"
      unfolding s by (rule trans [OF g1 e])
    show "rtc_get_wd_flag pc' ?h2 = (False, pc', ?h2)" by (rule g2)
  next
    assume "(ucast (drop_bit 24 (bkp h RTC_WD_REG)) :: u8) \<noteq> WD_FLAG"
    then show "rtc_get_wd_flag pc h = (False, pc, h)" by (rule rtc_get_wd_flag_miss)
  qed
qed

theorem wd_flag_roundtrip_witness:
  "(0x001234 :: u32) AND 0x00FFFFFF = 0x001234
   \<and> rtc_get_wd_flag 7 (rtc_set_wd_flag 0x001234 rtc_hw_reset) = (True, 0x001234, rtc_hw_reset)
   \<and> (ucast (drop_bit 24 (bkp rtc_hw_reset RTC_WD_REG)) :: u8) \<noteq> WD_FLAG
   \<and> rtc_get_wd_flag 7 rtc_hw_reset = (False, 7, rtc_hw_reset)"
proof -
  have a: "(0x001234 :: u32) AND 0x00FFFFFF = 0x001234" by simp
  have b: "(ucast (drop_bit 24 (bkp rtc_hw_reset RTC_WD_REG)) :: u8) \<noteq> WD_FLAG"
    by (simp add: rtc_hw_reset_def WD_FLAG_def)
  have c: "rtc_hw_reset\<lparr>bkp := (bkp rtc_hw_reset)(RTC_WD_REG := 0)\<rparr> = rtc_hw_reset"
    by (simp add: rtc_hw_reset_def fun_upd_idem)
  show ?thesis
    using wd_flag_roundtrip [of "0x001234" 7 rtc_hw_reset 7] a b unfolding c by simp
qed

section \<open>Clock validation and the clock command\<close>

lemma validate_ok_iff:
  "fst (rtc_validate_and_correct t d) \<longleftrightarrow> clock_fields_in_range t d"
  by (auto simp add: rtc_validate_and_correct_def clock_fields_in_range_def Let_def
      word_less_nat_alt word_le_nat_alt not_less not_le)

lemma validate_fields:
  "six_fields (fst (snd (rtc_validate_and_correct t d))) (snd (snd (rtc_validate_and_correct t d)))
   = (if clock_fields_in_range t d then six_fields t d else [0, 1, 1, 0, 0, 0])"
  using validate_ok_iff [of t d]
  by (simp add: rtc_validate_and_correct_def six_fields_def Let_def)

lemma cmd_clock_write:
  assumes "unlocked_flag s"
  shows "cmd_clock 7 args s =
    (let td = cmd_clock_decode args (calendar_time (rtc s)) (calendar_date (rtc s));
         v = rtc_validate_and_correct (fst td) (snd td)
     in s\<lparr>rtc := (rtc s)\<lparr>calendar_time := fst (snd v), calendar_date := snd (snd v)\<rparr>,
          stdout := stdout s @ clock_line (fst (snd v)) (snd (snd v))\<rparr>)"
  using assms
  by (simp add: cmd_clock_def rtc_read_def rtc_write_def printf_def Let_def split_beta)

lemma clock_line_default:
  "six_fields t d = [0, 1, 1, 0, 0, 0] \<Longrightarrow> clock_line t d = ''OK, 2000 01 01  00 00 00'' @ CRLF"
  by (simp add: six_fields_def clock_line_def fmt_02d_def dec.simps digit_char_def)

text \<open>
  C9. \<^verbatim>\<open>rtc_validate_and_correct\<close> returns true exactly for in-range fields and then
  leaves the six fields as they are; otherwise it returns false and the six fields become
  2000-01-01 00:00:00 (year field 0). An unlocked \<^verbatim>\<open>cmd_clock\<close> with seven arguments
  ignores the flag and writes the validated fields to the calendar: for out-of-range
  decoded fields the calendar holds the defaults afterwards and the command answers with
  the OK line of the defaults, not with an error.
\<close>

theorem clock_write_validated:
  "(fst (rtc_validate_and_correct t d) \<longleftrightarrow> clock_fields_in_range t d)
   \<and> six_fields (fst (snd (rtc_validate_and_correct t d))) (snd (snd (rtc_validate_and_correct t d)))
       = (if clock_fields_in_range t d then six_fields t d else [0, 1, 1, 0, 0, 0])
   \<and> (unlocked_flag s \<longrightarrow>
        (let td = cmd_clock_decode args (calendar_time (rtc s)) (calendar_date (rtc s));
             s' = cmd_clock 7 args s
         in six_fields (calendar_time (rtc s')) (calendar_date (rtc s'))
              = (if clock_fields_in_range (fst td) (snd td) then six_fields (fst td) (snd td)
                 else [0, 1, 1, 0, 0, 0])
            \<and> (\<not> clock_fields_in_range (fst td) (snd td) \<longrightarrow>
                 stdout s' = stdout s @ ''OK, 2000 01 01  00 00 00'' @ CRLF)))"
proof (intro conjI impI)
  show "fst (rtc_validate_and_correct t d) \<longleftrightarrow> clock_fields_in_range t d"
    by (rule validate_ok_iff)
  show "six_fields (fst (snd (rtc_validate_and_correct t d))) (snd (snd (rtc_validate_and_correct t d)))
       = (if clock_fields_in_range t d then six_fields t d else [0, 1, 1, 0, 0, 0])"
    by (rule validate_fields)
next
  assume u: "unlocked_flag s"
  define td where "td = cmd_clock_decode args (calendar_time (rtc s)) (calendar_date (rtc s))"
  define v where "v = rtc_validate_and_correct (fst td) (snd td)"
  have c: "cmd_clock 7 args s =
      s\<lparr>rtc := (rtc s)\<lparr>calendar_time := fst (snd v), calendar_date := snd (snd v)\<rparr>,
        stdout := stdout s @ clock_line (fst (snd v)) (snd (snd v))\<rparr>"
    using cmd_clock_write [OF u, of args] by (simp add: Let_def td_def v_def)
  have f: "six_fields (fst (snd v)) (snd (snd v))
           = (if clock_fields_in_range (fst td) (snd td) then six_fields (fst td) (snd td)
              else [0, 1, 1, 0, 0, 0])"
    unfolding v_def by (rule validate_fields)
  have l: "clock_line (fst (snd v)) (snd (snd v)) = ''OK, 2000 01 01  00 00 00'' @ CRLF"
    if "\<not> clock_fields_in_range (fst td) (snd td)"
    using f that by (intro clock_line_default) simp
  show "let td = cmd_clock_decode args (calendar_time (rtc s)) (calendar_date (rtc s));
             s' = cmd_clock 7 args s
         in six_fields (calendar_time (rtc s')) (calendar_date (rtc s'))
              = (if clock_fields_in_range (fst td) (snd td) then six_fields (fst td) (snd td)
                 else [0, 1, 1, 0, 0, 0])
            \<and> (\<not> clock_fields_in_range (fst td) (snd td) \<longrightarrow>
                 stdout s' = stdout s @ ''OK, 2000 01 01  00 00 00'' @ CRLF)"
    unfolding Let_def td_def [symmetric] c using f l by simp
qed

lemma decode_example:
  "cmd_clock_decode [''clock'', ''2024'', ''13'', ''1'', ''0'', ''0'', ''0'']
     (calendar_time (rtc (sys_reset\<lparr>unlocked_flag := True\<rparr>)))
     (calendar_date (rtc (sys_reset\<lparr>unlocked_flag := True\<rparr>)))
   = (\<lparr>Hours = 0, Minutes = 0, Seconds = 0, TimeFormat = 0, SubSeconds = 0,
                       SecondFraction = 0, DayLightSaving = 0, StoreOperation = 0\<rparr>,
      \<lparr>WeekDay = 1, Month = 13, Date = 1, Year = 24\<rparr>)"
  by (simp add: cmd_clock_decode_def sys_reset_def rtc_hw_reset_def strtoul_def isspace_def
      isdigit_def Let_def)

theorem clock_write_validated_witness:
  "unlocked_flag (sys_reset\<lparr>unlocked_flag := True\<rparr>)
   \<and> \<not> clock_fields_in_range
        (fst (cmd_clock_decode [''clock'', ''2024'', ''13'', ''1'', ''0'', ''0'', ''0'']
               (calendar_time (rtc (sys_reset\<lparr>unlocked_flag := True\<rparr>)))
               (calendar_date (rtc (sys_reset\<lparr>unlocked_flag := True\<rparr>)))))
        (snd (cmd_clock_decode [''clock'', ''2024'', ''13'', ''1'', ''0'', ''0'', ''0'']
               (calendar_time (rtc (sys_reset\<lparr>unlocked_flag := True\<rparr>)))
               (calendar_date (rtc (sys_reset\<lparr>unlocked_flag := True\<rparr>)))))
   \<and> stdout (cmd_clock 7 [''clock'', ''2024'', ''13'', ''1'', ''0'', ''0'', ''0'']
               (sys_reset\<lparr>unlocked_flag := True\<rparr>))
       = ''OK, 2000 01 01  00 00 00'' @ CRLF"
proof -
  have r: "\<not> clock_fields_in_range
        (fst (cmd_clock_decode [''clock'', ''2024'', ''13'', ''1'', ''0'', ''0'', ''0'']
               (calendar_time (rtc (sys_reset\<lparr>unlocked_flag := True\<rparr>)))
               (calendar_date (rtc (sys_reset\<lparr>unlocked_flag := True\<rparr>)))))
        (snd (cmd_clock_decode [''clock'', ''2024'', ''13'', ''1'', ''0'', ''0'', ''0'']
               (calendar_time (rtc (sys_reset\<lparr>unlocked_flag := True\<rparr>)))
               (calendar_date (rtc (sys_reset\<lparr>unlocked_flag := True\<rparr>)))))"
    unfolding decode_example by (simp add: clock_fields_in_range_def)
  have u: "unlocked_flag (sys_reset\<lparr>unlocked_flag := True\<rparr>)" by simp
  have e: "stdout (sys_reset\<lparr>unlocked_flag := True\<rparr>) = []" by (simp add: sys_reset_def)
  show ?thesis
    using clock_write_validated [of "calendar_time rtc_hw_reset" "calendar_date rtc_hw_reset"
        "sys_reset\<lparr>unlocked_flag := True\<rparr>"
        "[''clock'', ''2024'', ''13'', ''1'', ''0'', ''0'', ''0'']"] r u e
    by (simp add: Let_def)
qed

section \<open>The boot loader decision\<close>

lemma rtc_get_loader_flag_set:
  "bkp h RTC_LD_REG = LD_FLAG \<Longrightarrow>
   rtc_get_loader_flag h
   = (True, h\<lparr>rtcapb_clk_enabled := True, pwr_clk_enabled := True, bkup_access_enabled := True,
              bkp := (bkp h)(RTC_LD_REG := 0)\<rparr>)"
  by (simp add: rtc_get_loader_flag_def Let_def)

lemma rtc_get_loader_flag_clear:
  "bkp h RTC_LD_REG \<noteq> LD_FLAG \<Longrightarrow>
   rtc_get_loader_flag h = (False, h\<lparr>rtcapb_clk_enabled := True\<rparr>)"
  by (simp add: rtc_get_loader_flag_def Let_def)

lemma bootloader_jump_returns:
  "bkp (rtc s) RTC_LD_REG \<noteq> LD_FLAG \<Longrightarrow>
   bootloader_jump s = Returns (s\<lparr>rtc := (rtc s)\<lparr>rtcapb_clk_enabled := True\<rparr>\<rparr>)"
  by (simp add: bootloader_jump_def rtc_get_loader_flag_clear Let_def)

lemma bootloader_jump_jumps:
  "bkp (rtc s) RTC_LD_REG = LD_FLAG \<Longrightarrow>
   bootloader_jump s =
     Jumps BOOTLOADER_STACK START_ADDRESS
       (s\<lparr>rtc := (rtc s)\<lparr>rtcapb_clk_enabled := True, pwr_clk_enabled := True,
                          bkup_access_enabled := True, bkp := (bkp (rtc s))(RTC_LD_REG := 0)\<rparr>,
          rcc_deinit_done := True, systick_ctrl := 0, systick_load := 0, systick_val := 0,
          timer := (timer s)\<lparr>primask := 1\<rparr>\<rparr>)"
  by (simp add: bootloader_jump_def rtc_get_loader_flag_set Let_def SysMemBootJump_def
      set_PRIMASK_def)

text \<open>
  C6. If the loader register holds the loader tag, \<^verbatim>\<open>bootloader_jump\<close> ends in the jump
  to the boot loader with register \<^verbatim>\<open>RTC_LD_REG\<close> cleared and the other backup registers
  as they were, and a \<^verbatim>\<open>bootloader_jump\<close> run on the state so left (the next restart)
  returns. If the register does not hold the tag, \<^verbatim>\<open>bootloader_jump\<close> returns and every
  backup register is unchanged.
\<close>

theorem bootloader_jump_decision:
  "(bkp (rtc s) RTC_LD_REG = LD_FLAG \<longrightarrow>
      (\<exists>s'. bootloader_jump s = Jumps BOOTLOADER_STACK START_ADDRESS s'
            \<and> bkp (rtc s') = (bkp (rtc s))(RTC_LD_REG := 0)
            \<and> (\<exists>s''. bootloader_jump s' = Returns s'' \<and> bkp (rtc s'') = bkp (rtc s'))))
   \<and> (bkp (rtc s) RTC_LD_REG \<noteq> LD_FLAG \<longrightarrow>
      (\<exists>s'. bootloader_jump s = Returns s' \<and> bkp (rtc s') = bkp (rtc s)))"
proof (intro conjI impI)
  assume a: "bkp (rtc s) RTC_LD_REG = LD_FLAG"
  let ?s' = "s\<lparr>rtc := (rtc s)\<lparr>rtcapb_clk_enabled := True, pwr_clk_enabled := True,
                          bkup_access_enabled := True, bkp := (bkp (rtc s))(RTC_LD_REG := 0)\<rparr>,
          rcc_deinit_done := True, systick_ctrl := 0, systick_load := 0, systick_val := 0,
          timer := (timer s)\<lparr>primask := 1\<rparr>\<rparr>"
  have j: "bootloader_jump s = Jumps BOOTLOADER_STACK START_ADDRESS ?s'"
    by (rule bootloader_jump_jumps [OF a])
  have b: "bkp (rtc ?s') = (bkp (rtc s))(RTC_LD_REG := 0)" by simp
  have n: "bkp (rtc ?s') RTC_LD_REG \<noteq> LD_FLAG" by (simp add: LD_FLAG_def)
  have r: "\<exists>s''. bootloader_jump ?s' = Returns s'' \<and> bkp (rtc s'') = bkp (rtc ?s')"
    using bootloader_jump_returns [OF n] by simp
  show "\<exists>s'. bootloader_jump s = Jumps BOOTLOADER_STACK START_ADDRESS s'
            \<and> bkp (rtc s') = (bkp (rtc s))(RTC_LD_REG := 0)
            \<and> (\<exists>s''. bootloader_jump s' = Returns s'' \<and> bkp (rtc s'') = bkp (rtc s'))"
    using j b r by blast
next
  assume a: "bkp (rtc s) RTC_LD_REG \<noteq> LD_FLAG"
  show "\<exists>s'. bootloader_jump s = Returns s' \<and> bkp (rtc s') = bkp (rtc s)"
    using bootloader_jump_returns [OF a] by simp
qed

theorem bootloader_jump_decision_witness:
  "bkp (rtc (bootloader_start sys_reset)) RTC_LD_REG = LD_FLAG
   \<and> (\<exists>s'. bootloader_jump (bootloader_start sys_reset)
            = Jumps BOOTLOADER_STACK START_ADDRESS s' \<and> bkp (rtc s') RTC_LD_REG = 0)
   \<and> bkp (rtc sys_reset) RTC_LD_REG \<noteq> LD_FLAG
   \<and> (\<exists>s'. bootloader_jump sys_reset = Returns s' \<and> bkp (rtc s') = bkp (rtc sys_reset))"
proof -
  have a: "bkp (rtc (bootloader_start sys_reset)) RTC_LD_REG = LD_FLAG"
    by (simp add: bootloader_start_def nvic_safe_system_reset_def rtc_set_loader_flag_def
        HAL_RTCEx_BKUPWrite_def)
  have b: "bkp (rtc sys_reset) RTC_LD_REG \<noteq> LD_FLAG"
    by (simp add: sys_reset_def rtc_hw_reset_def LD_FLAG_def)
  from bootloader_jump_decision [of "bootloader_start sys_reset"] a
  obtain s' where "bootloader_jump (bootloader_start sys_reset)
            = Jumps BOOTLOADER_STACK START_ADDRESS s'"
     and "bkp (rtc s') = (bkp (rtc (bootloader_start sys_reset)))(RTC_LD_REG := 0)"
    by blast
  then have c: "\<exists>s'. bootloader_jump (bootloader_start sys_reset)
            = Jumps BOOTLOADER_STACK START_ADDRESS s' \<and> bkp (rtc s') RTC_LD_REG = 0"
    by simp
  show ?thesis
    using a b c bootloader_jump_decision [of sys_reset] by blast
qed

section \<open>Rejected commands\<close>

text \<open>
  C3, as the code has it. \<^verbatim>\<open>cmd_reset\<close>, \<^verbatim>\<open>cmd_off\<close> and \<^verbatim>\<open>cmd_load\<close> called with an
  argument count other than 1, or while the device is locked, print exactly
  \<open>Error\r\n\<close> and change nothing else. \<^verbatim>\<open>cmd_clock\<close> called with seven arguments while
  the device is locked does not write the clock either, but it does not print Error: it
  falls through to the read path and prints the OK line of the current clock.
\<close>

theorem rejected_commands:
  "(n \<noteq> 1 \<or> \<not> unlocked_flag s \<longrightarrow>
      cmd_reset n args s = s\<lparr>stdout := stdout s @ ''Error'' @ CRLF\<rparr>
      \<and> cmd_off n args s = s\<lparr>stdout := stdout s @ ''Error'' @ CRLF\<rparr>
      \<and> cmd_load n args s = s\<lparr>stdout := stdout s @ ''Error'' @ CRLF\<rparr>)
   \<and> (\<not> unlocked_flag s \<longrightarrow>
      cmd_clock 7 args s
        = s\<lparr>stdout := stdout s @ ''OK, 20'' @ fmt_02d (Year (calendar_date (rtc s))) @ '' ''
               @ fmt_02d (Month (calendar_date (rtc s))) @ '' ''
               @ fmt_02d (Date (calendar_date (rtc s))) @ ''  ''
               @ fmt_02d (Hours (calendar_time (rtc s))) @ '' ''
               @ fmt_02d (Minutes (calendar_time (rtc s))) @ '' ''
               @ fmt_02d (Seconds (calendar_time (rtc s))) @ CRLF\<rparr>)"
  by (auto simp add: cmd_reset_def cmd_off_def cmd_load_def cmd_clock_def printf_def
      rtc_read_def clock_line_def)

theorem rejected_commands_witness:
  "2 \<noteq> (1::int)
   \<and> stdout (cmd_reset 2 [''reset'', ''x''] sys_reset) = ''Error'' @ CRLF
   \<and> stdout (cmd_load 2 [''load'', ''x''] sys_reset) = ''Error'' @ CRLF
   \<and> \<not> unlocked_flag sys_reset
   \<and> rtc (cmd_clock 7 [''clock'', ''2024'', ''5'', ''6'', ''7'', ''8'', ''9''] sys_reset)
       = rtc sys_reset"
proof -
  have u: "\<not> unlocked_flag sys_reset" by (simp add: sys_reset_def)
  have e: "stdout sys_reset = []" by (simp add: sys_reset_def)
  show ?thesis
    using rejected_commands [of 2 sys_reset "[''reset'', ''x'']"]
      rejected_commands [of 2 sys_reset "[''load'', ''x'']"]
      rejected_commands [of 2 sys_reset "[''clock'', ''2024'', ''5'', ''6'', ''7'', ''8'', ''9'']"]
      u e
    by simp
qed

text \<open>
  C3 as worded fails for the clock command: from the reset state (locked),
  \<^verbatim>\<open>clock 2024 5 6 7 8 9\<close> prints the OK line of the current clock, not \<open>Error\r\n\<close>.
\<close>

theorem locked_clock_write_counterexample:
  "\<not> unlocked_flag sys_reset
   \<and> stdout (cmd_clock 7 [''clock'', ''2024'', ''5'', ''6'', ''7'', ''8'', ''9''] sys_reset)
       = ''OK, 2000 01 01  00 00 00'' @ CRLF
   \<and> stdout (cmd_clock 7 [''clock'', ''2024'', ''5'', ''6'', ''7'', ''8'', ''9''] sys_reset)
       \<noteq> stdout sys_reset @ ''Error'' @ CRLF"
  by (simp add: cmd_clock_def sys_reset_def rtc_hw_reset_def rtc_read_def printf_def
      clock_line_def fmt_02d_def dec.simps digit_char_def CRLF_def)

section \<open>The password command\<close>

lemma auth_unlock_state_key: "snd (auth_unlock c key) = snd (auth_unlock c 0)"
  by (simp add: auth_unlock_def Let_def)

lemma auth_unlock_accepts:
  "fst (auth_unlock c key)
   \<longleftrightarrow> key = push_bit 16 (z (snd (auth_unlock c 0))) + w (snd (auth_unlock c 0))"
  by (simp add: auth_unlock_def Let_def)

text \<open>
  C7. Whatever the lock state before the call: \<^verbatim>\<open>cmd_password\<close> without an argument
  re-salts and advances the generator, prints \<open>OK <z> <w>\<close> with the new words in decimal,
  and leaves the device locked. With an argument it advances the generator once; the
  device ends unlocked, and \<open>OK\<close> is printed, exactly when \<^verbatim>\<open>strtoul\<close> of the argument is
  the next generator value \<open>(z' << 16) + w'\<close> or the argument is the literal \<open>N3k0c0\<close>;
  otherwise \<open>ERROR\<close> is printed and the device ends locked.
\<close>

theorem cmd_password_gate:
  "(n < 2 \<longrightarrow>
     (let ct = auth_renew_values (certify s) (timer s);
          c2 = snd (auth_unlock (fst ct) 0)
      in cmd_password n args s
         = s\<lparr>unlocked_flag := False, certify := c2, timer := snd ct,
              stdout := stdout s @ ''OK '' @ fmt_lu (z c2) @ '' '' @ fmt_lu (w c2) @ CRLF\<rparr>))
   \<and> (2 \<le> n \<longrightarrow>
     (let c1 = snd (auth_unlock (certify s) 0);
          accept = (strtoul (args ! 1) = push_bit 16 (z c1) + w c1 \<or> args ! 1 = ''N3k0c0'')
      in cmd_password n args s
         = s\<lparr>unlocked_flag := accept, certify := c1,
              stdout := stdout s @ (if accept then ''OK'' else ''ERROR'') @ CRLF\<rparr>))"
proof (intro conjI impI)
  assume "n < 2"
  then show "let ct = auth_renew_values (certify s) (timer s);
          c2 = snd (auth_unlock (fst ct) 0)
      in cmd_password n args s
         = s\<lparr>unlocked_flag := False, certify := c2, timer := snd ct,
              stdout := stdout s @ ''OK '' @ fmt_lu (z c2) @ '' '' @ fmt_lu (w c2) @ CRLF\<rparr>"
    by (simp add: cmd_password_def Let_def split_beta printf_def)
next
  assume n: "2 \<le> n"
  have "cmd_password n args s
         = s\<lparr>unlocked_flag :=
                (fst (auth_unlock (certify s) (strtoul (args ! 1))) \<or> args ! 1 = ''N3k0c0''),
              certify := snd (auth_unlock (certify s) (strtoul (args ! 1))),
              stdout := stdout s
                @ (if fst (auth_unlock (certify s) (strtoul (args ! 1))) \<or> args ! 1 = ''N3k0c0''
                   then ''OK'' else ''ERROR'') @ CRLF\<rparr>"
    using n by (auto simp add: cmd_password_def Let_def split_beta printf_def)
  then show "let c1 = snd (auth_unlock (certify s) 0);
          accept = (strtoul (args ! 1) = push_bit 16 (z c1) + w c1 \<or> args ! 1 = ''N3k0c0'')
      in cmd_password n args s
         = s\<lparr>unlocked_flag := accept, certify := c1,
              stdout := stdout s @ (if accept then ''OK'' else ''ERROR'') @ CRLF\<rparr>"
    unfolding Let_def
    by (simp only: auth_unlock_accepts [of "certify s" "strtoul (args ! 1)"]
        auth_unlock_state_key [of "certify s" "strtoul (args ! 1)"])
qed

lemma sys_reset_challenge:
  "cmd_password 1 [''password''] sys_reset
   = sys_reset\<lparr>certify := \<lparr>w = 1, z = 1\<rparr>, stdout := ''OK 1 1'' @ CRLF\<rparr>"
  by (simp add: cmd_password_def sys_reset_def auth_renew_values_def timer_get_uptime_def
      timer_reset_module_timer_def timer_get_tick_def disable_irq_def set_PRIMASK_def
      timer_data_init_def timer_data_red_init_def auth_unlock_def printf_def fmt_lu_def
      dec.simps digit_char_def Let_def)

theorem cmd_password_gate_witness:
  "(1::int) < 2
   \<and> cmd_password 1 [''password''] sys_reset
       = sys_reset\<lparr>certify := \<lparr>w = 1, z = 1\<rparr>, stdout := ''OK 1 1'' @ CRLF\<rparr>
   \<and> (2::int) \<le> 2
   \<and> cmd_password 2 [''password'', ''2422752850'']
        (sys_reset\<lparr>certify := \<lparr>w = 1, z = 1\<rparr>, stdout := ''OK 1 1'' @ CRLF\<rparr>)
       = sys_reset\<lparr>unlocked_flag := True, certify := \<lparr>w = 18002, z = 36968\<rparr>,
                    stdout := ''OK 1 1'' @ CRLF @ ''OK'' @ CRLF\<rparr>
   \<and> cmd_password 2 [''password'', ''2422752851'']
        (sys_reset\<lparr>certify := \<lparr>w = 1, z = 1\<rparr>, stdout := ''OK 1 1'' @ CRLF\<rparr>)
       = sys_reset\<lparr>unlocked_flag := False, certify := \<lparr>w = 18002, z = 36968\<rparr>,
                    stdout := ''OK 1 1'' @ CRLF @ ''ERROR'' @ CRLF\<rparr>"
proof -
  let ?s1 = "sys_reset\<lparr>certify := \<lparr>w = 1, z = 1\<rparr>, stdout := ''OK 1 1'' @ CRLF\<rparr>"
  have c: "snd (auth_unlock (certify ?s1) 0) = \<lparr>w = 18002, z = 36968\<rparr>"
    by (simp add: auth_unlock_def Let_def)
  have k1: "strtoul ([''password'', ''2422752850''] ! 1) = 2422752850"
    by (simp add: strtoul_def isspace_def isdigit_def)
  have k2: "strtoul ([''password'', ''2422752851''] ! 1) = 2422752851"
    by (simp add: strtoul_def isspace_def isdigit_def)
  have u: "unlocked_flag sys_reset = False" by (simp add: sys_reset_def)
  have e: "sys_reset\<lparr>unlocked_flag := False\<rparr> = sys_reset" using u by simp
  have a: "cmd_password 2 [''password'', ''2422752850''] ?s1
       = sys_reset\<lparr>unlocked_flag := True, certify := \<lparr>w = 18002, z = 36968\<rparr>,
                    stdout := ''OK 1 1'' @ CRLF @ ''OK'' @ CRLF\<rparr>"
    using cmd_password_gate [of 2 ?s1 "[''password'', ''2422752850'']"]
    unfolding Let_def c k1 by simp
  have b: "cmd_password 2 [''password'', ''2422752851''] ?s1
       = sys_reset\<lparr>unlocked_flag := False, certify := \<lparr>w = 18002, z = 36968\<rparr>,
                    stdout := ''OK 1 1'' @ CRLF @ ''ERROR'' @ CRLF\<rparr>"
    using cmd_password_gate [of 2 ?s1 "[''password'', ''2422752851'']"]
    unfolding Let_def c k2 by simp
  have d: "cmd_password 1 [''password''] sys_reset = ?s1"
    using cmd_password_gate [of 1 sys_reset "[''password'']"] sys_reset_challenge by simp
  show ?thesis using a b d by simp
qed

section \<open>The tokeniser on the two example lines\<close>

text \<open>
  C8. \<^verbatim>\<open>command_execute\<close> tokenises a 320-byte buffer holding the line, NUL-terminated,
  into a zeroed table of 160 pointers, with a space as the divide character. For the line
  \<open>password 123\<close> \<^verbatim>\<open>nsplit\<close> returns 2 and leaves the tokens \<open>password\<close> and \<open>123\<close>;
  for the line \<open>led "1" "0" 1 0\<close> it returns 5 and leaves \<open>led\<close>, \<open>1\<close>, \<open>0\<close>, \<open>1\<close>,
  \<open>0\<close>, the quoted tokens without their quotes.
\<close>

theorem nsplit_examples:
  "map_option (\<lambda>r. (fst r, tokens r))
     (nsplit (''password 123'' @ replicate 308 NUL) (CHR '' '') (replicate 160 0) 160)
   = Some (2, [''password'', ''123''])
   \<and> map_option (\<lambda>r. (fst r, tokens r))
     (nsplit (''led '' @ [CHR 0x22] @ ''1'' @ [CHR 0x22] @ '' '' @ [CHR 0x22] @ ''0''
                @ [CHR 0x22] @ '' 1 0'' @ replicate 305 NUL)
        (CHR '' '') (replicate 160 0) 160)
   = Some (5, [''led'', ''1'', ''0'', ''1'', ''0''])"
  by code_simp

section \<open>The ring buffer\<close>

lemma rb_run_Nil: "rb_run [] t = t"
  by (simp add: rb_run_def)

lemma rb_run_Cons: "rb_run (op # ops) t = rb_run ops (rb_step op t)"
  by (simp add: rb_run_def)

lemma rb_run_append: "rb_run (xs @ ys) t = rb_run ys (rb_run xs t)"
  by (simp add: rb_run_def)

lemma enq_not_full:
  assumes "\<not> length' b \<le> index_in b - index_out b"
  shows "console_enq_buffer ch b
         = (True, b\<lparr>buffer := (buffer b)[unat (index_in b mod length' b) := ch],
                     index_in := index_in b + 1\<rparr>)"
  using assms by (simp add: console_enq_buffer_def console_is_buffer_full_def Let_def)

lemma enq_full:
  assumes "length' b \<le> index_in b - index_out b"
  shows "console_enq_buffer ch b = (False, b)"
  using assms by (simp add: console_enq_buffer_def console_is_buffer_full_def Let_def)

lemma deq_some:
  assumes "index_in b \<noteq> index_out b" and "index_in b \<noteq> index_out b + 1"
  shows "console_deq_buffer b ch
         = (True, buffer b ! unat (index_out b mod length' b), b\<lparr>index_out := index_out b + 1\<rparr>)"
  using assms by (simp add: console_deq_buffer_def Let_def)

lemma deq_last:
  assumes "index_in b = index_out b + 1"
  shows "console_deq_buffer b ch
         = (True, buffer b ! unat (index_out b mod length' b),
            b\<lparr>index_out := index_out b mod length' b + 1,
              index_in := index_out b mod length' b + 1\<rparr>)"
  using assms by (simp add: console_deq_buffer_def Let_def)

lemma deq_empty:
  assumes "index_in b = index_out b"
  shows "console_deq_buffer b ch = (False, ch, b)"
  using assms by (simp add: console_deq_buffer_def Let_def)

text \<open>One enqueue followed by one dequeue on a receive-sized buffer that holds one byte.\<close>

lemma rb_step_Enq:
  "console_enq_buffer ch (ring t) = (ok, b) \<Longrightarrow>
   rb_step (Enq ch) t = t\<lparr>ring := b, accepted := (if ok then accepted t @ [ch] else accepted t)\<rparr>"
  by (simp add: rb_step_def)

lemma rb_step_Deq:
  "console_deq_buffer (ring t) NUL = (ok, c, b) \<Longrightarrow>
   rb_step Deq t = t\<lparr>ring := b, delivered := (if ok then delivered t @ [c] else delivered t)\<rparr>"
  by (simp add: rb_step_def)

lemma rx_pair:
  assumes "length' (ring t) = 320" and "index_in (ring t) = index_out (ring t) + 1"
  shows "\<exists>c' bf. rb_step Deq (rb_step (Enq c) t)
         = t\<lparr>ring := (ring t)\<lparr>buffer := bf, index_in := index_in (ring t) + 1,
                               index_out := index_out (ring t) + 1\<rparr>,
              accepted := accepted t @ [c], delivered := delivered t @ [c']\<rparr>
         \<and> length bf = length (buffer (ring t))"
proof -
  let ?b = "ring t"
  have nf: "\<not> length' ?b \<le> index_in ?b - index_out ?b"
    using assms by (simp add: word_le_nat_alt)
  define b1 where "b1 = ?b\<lparr>buffer := (buffer ?b)[unat (index_in ?b mod length' ?b) := c],
                index_in := index_in ?b + 1\<rparr>"
  define t1 where "t1 = t\<lparr>ring := b1, accepted := accepted t @ [c]\<rparr>"
  have e: "rb_step (Enq c) t = t1"
    using rb_step_Enq [OF enq_not_full [OF nf, of c]] by (simp add: t1_def b1_def)
  have n1: "index_in b1 \<noteq> index_out b1" using assms by (simp add: b1_def)
  have n2: "index_in b1 \<noteq> index_out b1 + 1" using assms by (simp add: b1_def)
  have r: "ring t1 = b1" by (simp add: t1_def)
  have d: "rb_step Deq t1
           = t1\<lparr>ring := b1\<lparr>index_out := index_out b1 + 1\<rparr>,
                delivered := delivered t1 @ [buffer b1 ! unat (index_out b1 mod length' b1)]\<rparr>"
    using rb_step_Deq [of t1, unfolded r, OF deq_some [OF n1 n2, of NUL]] by simp
  have f: "t1\<lparr>ring := b1\<lparr>index_out := index_out b1 + 1\<rparr>,
                delivered := delivered t1 @ [buffer b1 ! unat (index_out b1 mod length' b1)]\<rparr>
           = t\<lparr>ring := (ring t)\<lparr>buffer := buffer b1, index_in := index_in (ring t) + 1,
                               index_out := index_out (ring t) + 1\<rparr>,
              accepted := accepted t @ [c],
              delivered := delivered t @ [buffer b1 ! unat (index_out b1 mod length' b1)]\<rparr>"
    by (simp add: t1_def b1_def)
  have l: "length (buffer b1) = length (buffer (ring t))" by (simp add: b1_def)
  show ?thesis
    unfolding e d f using l by blast
qed

lemma rx_pairs:
  assumes "length' (ring t) = 320" and "index_in (ring t) = index_out (ring t) + 1"
  shows "length' (ring (rb_run (concat (replicate k [Enq c, Deq])) t)) = 320
    \<and> index_in (ring (rb_run (concat (replicate k [Enq c, Deq])) t)) = index_in (ring t) + of_nat k
    \<and> index_out (ring (rb_run (concat (replicate k [Enq c, Deq])) t)) = index_out (ring t) + of_nat k
    \<and> accepted (rb_run (concat (replicate k [Enq c, Deq])) t) = accepted t @ replicate k c
    \<and> length (delivered (rb_run (concat (replicate k [Enq c, Deq])) t)) = length (delivered t) + k
    \<and> length (buffer (ring (rb_run (concat (replicate k [Enq c, Deq])) t)))
        = length (buffer (ring t))"
  using assms
proof (induction k arbitrary: t)
  case 0
  then show ?case by (simp add: rb_run_Nil)
next
  case (Suc k)
  from rx_pair [OF Suc.prems, of c] obtain c' bf where
    st: "rb_step Deq (rb_step (Enq c) t)
         = t\<lparr>ring := (ring t)\<lparr>buffer := bf, index_in := index_in (ring t) + 1,
                               index_out := index_out (ring t) + 1\<rparr>,
              accepted := accepted t @ [c], delivered := delivered t @ [c']\<rparr>"
    and bf: "length bf = length (buffer (ring t))"
    by blast
  define t1 where "t1 = rb_step Deq (rb_step (Enq c) t)"
  have r: "rb_run (concat (replicate (Suc k) [Enq c, Deq])) t
           = rb_run (concat (replicate k [Enq c, Deq])) t1"
    by (simp add: rb_run_Cons t1_def)
  have p1: "length' (ring t1) = 320" using Suc.prems by (simp add: t1_def st)
  have p2: "index_in (ring t1) = index_out (ring t1) + 1" using Suc.prems by (simp add: t1_def st)
  have v: "index_in (ring t1) = index_in (ring t) + 1" "index_out (ring t1) = index_out (ring t) + 1"
    "accepted t1 = accepted t @ [c]" "length (delivered t1) = length (delivered t) + 1"
    "length (buffer (ring t1)) = length (buffer (ring t))"
    using bf by (simp_all add: t1_def st)
  show ?case
    unfolding r using Suc.IH [OF p1 p2] unfolding v
    by (simp add: replicate_app_Cons_same)
qed

lemma rx_enqs:
  assumes "length' (ring t) = 320" and "index_in (ring t) - index_out (ring t) = of_nat m"
    and "m + k \<le> 320"
  shows "length' (ring (rb_run (replicate k (Enq c)) t)) = 320
    \<and> index_in (ring (rb_run (replicate k (Enq c)) t)) = index_in (ring t) + of_nat k
    \<and> index_out (ring (rb_run (replicate k (Enq c)) t)) = index_out (ring t)
    \<and> accepted (rb_run (replicate k (Enq c)) t) = accepted t @ replicate k c
    \<and> delivered (rb_run (replicate k (Enq c)) t) = delivered t
    \<and> length (buffer (ring (rb_run (replicate k (Enq c)) t))) = length (buffer (ring t))"
  using assms
proof (induction k arbitrary: t m)
  case 0
  then show ?case by (simp add: rb_run_Nil)
next
  case (Suc k)
  have m: "m < 320" using Suc.prems by simp
  then have "unat (of_nat m :: u16) = m" by (simp add: unat_of_nat)
  then have nf: "\<not> length' (ring t) \<le> index_in (ring t) - index_out (ring t)"
    using Suc.prems m by (simp add: word_le_nat_alt)
  define t1 where "t1 = rb_step (Enq c) t"
  have e: "t1 = t\<lparr>ring := (ring t)\<lparr>buffer := (buffer (ring t))
                       [unat (index_in (ring t) mod length' (ring t)) := c],
                     index_in := index_in (ring t) + 1\<rparr>,
                  accepted := accepted t @ [c]\<rparr>"
    unfolding t1_def using rb_step_Enq [OF enq_not_full [OF nf, of c]] by simp
  have r: "rb_run (replicate (Suc k) (Enq c)) t = rb_run (replicate k (Enq c)) t1"
    by (simp add: rb_run_Cons t1_def)
  have p1: "length' (ring t1) = 320" using Suc.prems by (simp add: e)
  have p2: "index_in (ring t1) - index_out (ring t1) = of_nat (Suc m)"
    using Suc.prems by (simp add: e)
  have p3: "Suc m + k \<le> 320" using Suc.prems by simp
  have v: "index_in (ring t1) = index_in (ring t) + 1" "index_out (ring t1) = index_out (ring t)"
    "accepted t1 = accepted t @ [c]" "delivered t1 = delivered t"
    "length (buffer (ring t1)) = length (buffer (ring t))"
    by (simp_all add: e)
  show ?case
    unfolding r using Suc.IH [OF p1 p2 p3] unfolding v
    by (simp add: replicate_app_Cons_same)
qed

text \<open>
  C2 at the receive buffer (length 320, which does not divide \<open>2 ^ 16\<close>). In the run
  \<^const>\<open>rx_wrap_ops\<close> from the initialised empty buffer every enqueue is accepted and
  every dequeue delivers a byte; the byte \<open>o\<close> is the 65281st accepted and is still in
  the buffer when, after the write index has wrapped to 0, the enqueue of \<open>n\<close> is
  accepted into the same array slot. The 65281st byte delivered is therefore \<open>n\<close>, not
  \<open>o\<close>: the order of delivery is not the order of acceptance.
\<close>

theorem rx_buffer_wrap_breaks_fifo:
  "length (delivered (rb_run rx_wrap_ops (rb_start rx_buffer_init))) = 65281
   \<and> delivered (rb_run rx_wrap_ops (rb_start rx_buffer_init)) ! 65280 = CHR ''n''
   \<and> accepted (rb_run rx_wrap_ops (rb_start rx_buffer_init)) ! 65280 = CHR ''o''
   \<and> delivered (rb_run rx_wrap_ops (rb_start rx_buffer_init))
       \<noteq> take 65281 (accepted (rb_run rx_wrap_ops (rb_start rx_buffer_init)))"
proof -
  define t0 where "t0 = rb_start rx_buffer_init"
  define t1 where "t1 = rb_step (Enq (CHR ''a'')) t0"
  define t2 where "t2 = rb_run (concat (replicate 65279 [Enq (CHR ''a''), Deq])) t1"
  define t3 where "t3 = rb_run (concat (replicate 1 [Enq (CHR ''o''), Deq])) t2"
  define t4 where "t4 = rb_run (replicate 255 (Enq (CHR ''b''))) t3"
  define t5 where "t5 = rb_step (Enq (CHR ''n'')) t4"
  define t6 where "t6 = rb_step Deq t5"
  have run: "rb_run rx_wrap_ops (rb_start rx_buffer_init) = t6"
    by (simp add: rx_wrap_ops_def rb_run_Cons rb_run_append rb_run_Nil
        t0_def t1_def t2_def t3_def t4_def t5_def t6_def)
  have r0: "ring t0 = \<lparr>buffer = replicate 320 NUL, index_in = 0, index_out = 0, length' = 320\<rparr>"
    "accepted t0 = []" "delivered t0 = []"
    by (simp_all add: t0_def rb_start_def rx_buffer_init_def console_init_buffer_def
        CONSOLE_RX_BUF_LEN_def)
  have nf0: "\<not> length' (ring t0) \<le> index_in (ring t0) - index_out (ring t0)"
    by (simp add: r0 word_le_nat_alt)
  have e1: "t1 = t0\<lparr>ring := (ring t0)\<lparr>buffer := (buffer (ring t0))
                       [unat (index_in (ring t0) mod length' (ring t0)) := CHR ''a''],
                     index_in := index_in (ring t0) + 1\<rparr>,
                  accepted := accepted t0 @ [CHR ''a'']\<rparr>"
    unfolding t1_def using rb_step_Enq [OF enq_not_full [OF nf0, of "CHR ''a''"]] by simp
  have v1: "length' (ring t1) = 320" "index_in (ring t1) = 1" "index_out (ring t1) = 0"
    "accepted t1 = [CHR ''a'']" "delivered t1 = []" "length (buffer (ring t1)) = 320"
    by (simp_all add: e1 r0)
  have q1: "index_in (ring t1) = index_out (ring t1) + 1" by (simp add: v1)
  have v2: "length' (ring t2) = 320" "index_in (ring t2) = 65280" "index_out (ring t2) = 65279"
    "accepted t2 = CHR ''a'' # replicate 65279 (CHR ''a'')" "length (delivered t2) = 65279"
    "length (buffer (ring t2)) = 320"
    using rx_pairs [OF v1(1) q1, of 65279 "CHR ''a''"] unfolding t2_def [symmetric] v1
    by simp_all
  have q2: "index_in (ring t2) = index_out (ring t2) + 1" by (simp add: v2)
  have v3: "length' (ring t3) = 320" "index_in (ring t3) = 65281" "index_out (ring t3) = 65280"
    "accepted t3 = CHR ''a'' # replicate 65279 (CHR ''a'') @ [CHR ''o'']"
    "length (delivered t3) = 65280" "length (buffer (ring t3)) = 320"
    using rx_pairs [OF v2(1) q2, of 1 "CHR ''o''"] unfolding t3_def [symmetric] v2
    by simp_all
  have q3: "index_in (ring t3) - index_out (ring t3) = of_nat 1" by (simp add: v3)
  have v4: "length' (ring t4) = 320" "index_in (ring t4) = 0" "index_out (ring t4) = 65280"
    "accepted t4 = CHR ''a'' # replicate 65279 (CHR ''a'') @ [CHR ''o''] @ replicate 255 (CHR ''b'')"
    "delivered t4 = delivered t3" "length (buffer (ring t4)) = 320"
    using rx_enqs [OF v3(1) q3, of 255 "CHR ''b''"] unfolding t4_def [symmetric] v3
    by simp_all
  have nf4: "\<not> length' (ring t4) \<le> index_in (ring t4) - index_out (ring t4)"
    by (simp add: v4 word_le_nat_alt)
  have e5: "t5 = t4\<lparr>ring := (ring t4)\<lparr>buffer := (buffer (ring t4))
                       [unat (index_in (ring t4) mod length' (ring t4)) := CHR ''n''],
                     index_in := index_in (ring t4) + 1\<rparr>,
                  accepted := accepted t4 @ [CHR ''n'']\<rparr>"
    unfolding t5_def using rb_step_Enq [OF enq_not_full [OF nf4, of "CHR ''n''"]] by simp
  have v5: "length' (ring t5) = 320" "index_in (ring t5) = 1" "index_out (ring t5) = 65280"
    "buffer (ring t5) = (buffer (ring t4))[0 := CHR ''n'']"
    "accepted t5 = accepted t4 @ [CHR ''n'']" "delivered t5 = delivered t3"
    by (simp_all add: e5 v4)
  have n1: "index_in (ring t5) \<noteq> index_out (ring t5)" by (simp add: v5)
  have n2: "index_in (ring t5) \<noteq> index_out (ring t5) + 1" by (simp add: v5)
  have e6: "t6 = t5\<lparr>ring := (ring t5)\<lparr>index_out := index_out (ring t5) + 1\<rparr>,
                  delivered := delivered t5
                    @ [buffer (ring t5) ! unat (index_out (ring t5) mod length' (ring t5))]\<rparr>"
    unfolding t6_def using rb_step_Deq [OF deq_some [OF n1 n2, of NUL]] by simp
  have slot: "unat (index_out (ring t5) mod length' (ring t5)) = 0" by (simp add: v5)
  have d6: "delivered t6 = delivered t3 @ [CHR ''n'']"
    unfolding e6 slot by (simp add: v5 v4)
  have a6: "accepted t6
            = CHR ''a'' # replicate 65279 (CHR ''a'') @ [CHR ''o'']
                @ replicate 255 (CHR ''b'') @ [CHR ''n'']"
    unfolding e6 by (simp add: v5 v4)
  have a: "accepted t6 ! 65280 = CHR ''o''"
    unfolding a6 by (simp add: nth_append nth_Cons')
  have d: "delivered t6 ! 65280 = CHR ''n''"
    unfolding d6 using v3(5) by (simp add: nth_append)
  have l: "length (delivered t6) = 65281" unfolding d6 using v3(5) by simp
  have la: "65280 < length (accepted t6)" unfolding a6 by simp
  have ne: "delivered t6 \<noteq> take 65281 (accepted t6)"
  proof
    assume "delivered t6 = take 65281 (accepted t6)"
    then have "delivered t6 ! 65280 = take 65281 (accepted t6) ! 65280" by simp
    then show False using a d by simp
  qed
  show ?thesis unfolding run using l d a ne by simp
qed

section \<open>The dispatcher and the first token\<close>

lemma command_scan_empty: "command_scan (command_table h) [] 0 = (12, None)"
  by (simp add: command_table_def)

lemma command_scan_unknown:
  "a0 \<notin> set (map command (command_table h)) \<Longrightarrow> command_scan (command_table h) a0 0 = (12, None)"
  by (simp add: command_table_def)

lemma command_names:
  "a0 \<in> set (map command (command_table h)) \<longleftrightarrow>
     a0 = ''help'' \<or> a0 = ''?'' \<or> a0 = ''version'' \<or> a0 = ''clear'' \<or> a0 = ''uptime''
     \<or> a0 = ''clock'' \<or> a0 = ''temp_stat'' \<or> a0 = ''password'' \<or> a0 = ''reset''
     \<or> a0 = ''off'' \<or> a0 = ''load'' \<or> a0 = []"
  by (simp add: command_table_def)

lemma command_scan_at:
  "command_scan (command_table h) ''help'' 0 = (0, CMD_FUNC (command_table h ! 0))"
  "command_scan (command_table h) ''?'' 0 = (1, CMD_FUNC (command_table h ! 1))"
  "command_scan (command_table h) ''version'' 0 = (2, CMD_FUNC (command_table h ! 2))"
  "command_scan (command_table h) ''clear'' 0 = (3, CMD_FUNC (command_table h ! 3))"
  "command_scan (command_table h) ''uptime'' 0 = (4, CMD_FUNC (command_table h ! 4))"
  "command_scan (command_table h) ''clock'' 0 = (5, CMD_FUNC (command_table h ! 5))"
  "command_scan (command_table h) ''temp_stat'' 0 = (6, CMD_FUNC (command_table h ! 6))"
  "command_scan (command_table h) ''password'' 0 = (7, CMD_FUNC (command_table h ! 7))"
  "command_scan (command_table h) ''reset'' 0 = (8, CMD_FUNC (command_table h ! 8))"
  "command_scan (command_table h) ''off'' 0 = (9, CMD_FUNC (command_table h ! 9))"
  "command_scan (command_table h) ''load'' 0 = (10, CMD_FUNC (command_table h ! 10))"
  by (simp_all add: command_table_def)

lemma command_table_at:
  "command (command_table h ! 0) = ''help''" "command (command_table h ! 1) = ''?''"
  "command (command_table h ! 2) = ''version''" "command (command_table h ! 3) = ''clear''"
  "command (command_table h ! 4) = ''uptime''" "command (command_table h ! 5) = ''clock''"
  "command (command_table h ! 6) = ''temp_stat''" "command (command_table h ! 7) = ''password''"
  "command (command_table h ! 8) = ''reset''" "command (command_table h ! 9) = ''off''"
  "command (command_table h ! 10) = ''load''"
  by (simp_all add: command_table_def)

lemma command_handler_at:
  "CMD_FUNC (command_table h ! 0) \<noteq> None" "CMD_FUNC (command_table h ! 1) \<noteq> None"
  "CMD_FUNC (command_table h ! 2) \<noteq> None" "CMD_FUNC (command_table h ! 3) \<noteq> None"
  "CMD_FUNC (command_table h ! 4) \<noteq> None" "CMD_FUNC (command_table h ! 5) \<noteq> None"
  "CMD_FUNC (command_table h ! 6) \<noteq> None" "CMD_FUNC (command_table h ! 7) \<noteq> None"
  "CMD_FUNC (command_table h ! 8) \<noteq> None" "CMD_FUNC (command_table h ! 9) \<noteq> None"
  "CMD_FUNC (command_table h ! 10) \<noteq> None"
  by (simp_all add: command_table_def)

lemma command_scan_known:
  assumes "a0 \<noteq> []" and "a0 \<in> set (map command (command_table h))"
  shows "\<exists>i f. i < 11 \<and> command (command_table h ! i) = a0
         \<and> CMD_FUNC (command_table h ! i) = Some f
         \<and> command_scan (command_table h) a0 0 = (i, Some f)"
proof -
  have "\<exists>i<11. command (command_table h ! i) = a0
          \<and> command_scan (command_table h) a0 0 = (i, CMD_FUNC (command_table h ! i))
          \<and> CMD_FUNC (command_table h ! i) \<noteq> None"
    using assms unfolding command_names
  proof (elim disjE)
    assume "a0 = ''help''" then show ?thesis
      by (intro exI [of _ 0]) (simp only: command_scan_at command_table_at command_handler_at, simp)
  next
    assume "a0 = ''?''" then show ?thesis
      by (intro exI [of _ 1]) (simp only: command_scan_at command_table_at command_handler_at, simp)
  next
    assume "a0 = ''version''" then show ?thesis
      by (intro exI [of _ 2]) (simp only: command_scan_at command_table_at command_handler_at, simp)
  next
    assume "a0 = ''clear''" then show ?thesis
      by (intro exI [of _ 3]) (simp only: command_scan_at command_table_at command_handler_at, simp)
  next
    assume "a0 = ''uptime''" then show ?thesis
      by (intro exI [of _ 4]) (simp only: command_scan_at command_table_at command_handler_at, simp)
  next
    assume "a0 = ''clock''" then show ?thesis
      by (intro exI [of _ 5]) (simp only: command_scan_at command_table_at command_handler_at, simp)
  next
    assume "a0 = ''temp_stat''" then show ?thesis
      by (intro exI [of _ 6]) (simp only: command_scan_at command_table_at command_handler_at, simp)
  next
    assume "a0 = ''password''" then show ?thesis
      by (intro exI [of _ 7]) (simp only: command_scan_at command_table_at command_handler_at, simp)
  next
    assume "a0 = ''reset''" then show ?thesis
      by (intro exI [of _ 8]) (simp only: command_scan_at command_table_at command_handler_at, simp)
  next
    assume "a0 = ''off''" then show ?thesis
      by (intro exI [of _ 9]) (simp only: command_scan_at command_table_at command_handler_at, simp)
  next
    assume "a0 = ''load''" then show ?thesis
      by (intro exI [of _ 10]) (simp only: command_scan_at command_table_at command_handler_at, simp)
  next
    assume "a0 = []" with assms(1) show ?thesis by simp
  qed
  then obtain i where i: "i < 11" and n: "command (command_table h ! i) = a0"
    and sc: "command_scan (command_table h) a0 0 = (i, CMD_FUNC (command_table h ! i))"
    and nn: "CMD_FUNC (command_table h ! i) \<noteq> None"
    by blast
  from nn obtain f where f: "CMD_FUNC (command_table h ! i) = Some f" by blast
  show ?thesis using i n f sc by auto
qed

lemma command_dispatch_none:
  assumes "command_scan (command_table h) (cstr (command_buffer s) (argv s ! 0)) 0 = (12, None)"
  shows "command_dispatch h s
         = s\<lparr>stdout := stdout s
                @ (if cstr (command_buffer s) (argv s ! 0) = [] then [] else ''Command not found!'')
                @ (if disable_newline (replay s) then [] else CRLF @ ''#'')\<rparr>"
  using assms by (simp add: command_dispatch_def command_num_def printf_def Let_def)

lemma command_dispatch_some:
  assumes "command_scan (command_table h) (cstr (command_buffer s) (argv s ! 0)) 0 = (i, Some f)"
    and "i < 11"
  shows "command_dispatch h s
         = (let s2 = f (argc s) (map (cstr (command_buffer s)) (take (nat (argc s)) (argv s))) s
            in s2\<lparr>stdout := stdout s2 @ (if disable_newline (replay s2) then [] else CRLF @ ''#'')\<rparr>)"
  using assms by (simp add: command_dispatch_def command_num_def printf_def Let_def)

text \<open>
  C10. Let \<^verbatim>\<open>command_execute\<close> have set \<^verbatim>\<open>cmd_execute_flag\<close> (a line was received, or
  a replay is due), and let \<open>a0\<close> be the string at \<^verbatim>\<open>argv[0]\<close>. If \<open>a0\<close> is empty, no
  handler is called and only the prompt is printed (unless a replay has switched it off).
  If \<open>a0\<close> is not empty and is no command of the table, \<open>Command not found!\<close> and the
  prompt are printed and nothing else changes. If \<open>a0\<close> is a command of the table, its
  handler is called with \<^verbatim>\<open>argc\<close> and the tokens, and the dispatcher adds only the
  prompt. So the message is printed exactly for a non-empty first token that matches no
  entry. This holds for every handler in the place of \<^verbatim>\<open>cmd_help\<close>.
\<close>

theorem command_execute_first_token:
  "command_receive s = Some (True, s1) \<longrightarrow>
     (let a0 = cstr (command_buffer s1) (argv s1 ! 0);
          prompt = (\<lambda>r. if disable_newline (replay r) then [] else CRLF @ ''#'')
      in (a0 = [] \<longrightarrow>
            command_execute h s = Some (s1\<lparr>stdout := stdout s1 @ prompt s1\<rparr>))
         \<and> (a0 \<noteq> [] \<and> a0 \<notin> set (map command (command_table h)) \<longrightarrow>
            command_execute h s
              = Some (s1\<lparr>stdout := stdout s1 @ ''Command not found!'' @ prompt s1\<rparr>))
         \<and> (a0 \<noteq> [] \<and> a0 \<in> set (map command (command_table h)) \<longrightarrow>
            (\<exists>i f. i < 11 \<and> command (command_table h ! i) = a0
                  \<and> CMD_FUNC (command_table h ! i) = Some f
                  \<and> command_execute h s
                      = Some (let s2 = f (argc s1)
                                         (map (cstr (command_buffer s1)) (take (nat (argc s1)) (argv s1)))
                                         s1
                              in s2\<lparr>stdout := stdout s2 @ prompt s2\<rparr>))))"
proof (intro impI)
  assume r: "command_receive s = Some (True, s1)"
  define a0 where "a0 = cstr (command_buffer s1) (argv s1 ! 0)"
  have ex: "command_execute h s = Some (command_dispatch h s1)"
    using r by (simp add: command_execute_def)
  have c1: "command_execute h s
            = Some (s1\<lparr>stdout := stdout s1 @ (if disable_newline (replay s1) then [] else CRLF @ ''#'')\<rparr>)"
    if "a0 = []"
  proof -
    have "command_scan (command_table h) (cstr (command_buffer s1) (argv s1 ! 0)) 0 = (12, None)"
      using that command_scan_empty [of h] by (simp add: a0_def)
    from command_dispatch_none [OF this] that show ?thesis
      unfolding ex by (simp add: a0_def)
  qed
  have c2: "command_execute h s
            = Some (s1\<lparr>stdout := stdout s1 @ ''Command not found!''
                      @ (if disable_newline (replay s1) then [] else CRLF @ ''#'')\<rparr>)"
    if "a0 \<noteq> []" and "a0 \<notin> set (map command (command_table h))"
  proof -
    have "command_scan (command_table h) (cstr (command_buffer s1) (argv s1 ! 0)) 0 = (12, None)"
      using command_scan_unknown [OF that(2)] by (simp add: a0_def)
    from command_dispatch_none [OF this] that(1) show ?thesis
      unfolding ex by (simp add: a0_def)
  qed
  have c3: "\<exists>i f. i < 11 \<and> command (command_table h ! i) = a0
                  \<and> CMD_FUNC (command_table h ! i) = Some f
                  \<and> command_execute h s
                      = Some (let s2 = f (argc s1)
                                         (map (cstr (command_buffer s1)) (take (nat (argc s1)) (argv s1)))
                                         s1
                              in s2\<lparr>stdout := stdout s2
                                      @ (if disable_newline (replay s2) then [] else CRLF @ ''#'')\<rparr>)"
    if "a0 \<noteq> []" and "a0 \<in> set (map command (command_table h))"
  proof -
    from command_scan_known [OF that] obtain i f where
      i: "i < 11" and n: "command (command_table h ! i) = a0"
      and f: "CMD_FUNC (command_table h ! i) = Some f"
      and sc: "command_scan (command_table h) a0 0 = (i, Some f)"
      by blast
    have "command_scan (command_table h) (cstr (command_buffer s1) (argv s1 ! 0)) 0 = (i, Some f)"
      using sc by (simp add: a0_def)
    from command_dispatch_some [OF this i] have
      "command_execute h s
       = Some (let s2 = f (argc s1)
                          (map (cstr (command_buffer s1)) (take (nat (argc s1)) (argv s1))) s1
               in s2\<lparr>stdout := stdout s2
                       @ (if disable_newline (replay s2) then [] else CRLF @ ''#'')\<rparr>)"
      unfolding ex by simp
    with i n f show ?thesis by blast
  qed
  show "let a0 = cstr (command_buffer s1) (argv s1 ! 0);
          prompt = (\<lambda>r. if disable_newline (replay r) then [] else CRLF @ ''#'')
      in (a0 = [] \<longrightarrow>
            command_execute h s = Some (s1\<lparr>stdout := stdout s1 @ prompt s1\<rparr>))
         \<and> (a0 \<noteq> [] \<and> a0 \<notin> set (map command (command_table h)) \<longrightarrow>
            command_execute h s
              = Some (s1\<lparr>stdout := stdout s1 @ ''Command not found!'' @ prompt s1\<rparr>))
         \<and> (a0 \<noteq> [] \<and> a0 \<in> set (map command (command_table h)) \<longrightarrow>
            (\<exists>i f. i < 11 \<and> command (command_table h ! i) = a0
                  \<and> CMD_FUNC (command_table h ! i) = Some f
                  \<and> command_execute h s
                      = Some (let s2 = f (argc s1)
                                         (map (cstr (command_buffer s1)) (take (nat (argc s1)) (argv s1)))
                                         s1
                              in s2\<lparr>stdout := stdout s2 @ prompt s2\<rparr>)))"
    unfolding Let_def a0_def [symmetric] using c1 c2 c3 unfolding Let_def by blast
qed

lemma received_cr:
  "map_option (\<lambda>r. (fst r, cstr (command_buffer (snd r)) (argv (snd r) ! 0),
                      disable_newline (replay (snd r)), stdout (snd r)))
     (command_receive (sys_received [CHR 0x0D]))
   = Some (True, [], False, CRLF)"
  by code_simp

lemma received_spaces:
  "map_option (\<lambda>r. (fst r, cstr (command_buffer (snd r)) (argv (snd r) ! 0),
                      disable_newline (replay (snd r)), stdout (snd r)))
     (command_receive (sys_received (''   '' @ [CHR 0x0D])))
   = Some (True, [], False, ''   '' @ CRLF)"
  by code_simp

lemma received_unknown:
  "map_option (\<lambda>r. (fst r, cstr (command_buffer (snd r)) (argv (snd r) ! 0),
                      disable_newline (replay (snd r)), stdout (snd r)))
     (command_receive (sys_received (''xyz'' @ [CHR 0x0D])))
   = Some (True, ''xyz'', False, ''xyz'' @ CRLF)"
  by code_simp

theorem command_execute_first_token_witness:
  "(\<exists>s1. command_receive (sys_received [CHR 0x0D]) = Some (True, s1)
         \<and> cstr (command_buffer s1) (argv s1 ! 0) = []
         \<and> command_execute cmd_version (sys_received [CHR 0x0D])
             = Some (s1\<lparr>stdout := CRLF @ CRLF @ ''#''\<rparr>))
   \<and> (\<exists>s1. command_receive (sys_received (''   '' @ [CHR 0x0D])) = Some (True, s1)
         \<and> cstr (command_buffer s1) (argv s1 ! 0) = []
         \<and> command_execute cmd_version (sys_received (''   '' @ [CHR 0x0D]))
             = Some (s1\<lparr>stdout := ''   '' @ CRLF @ CRLF @ ''#''\<rparr>))
   \<and> (\<exists>s1. command_receive (sys_received (''xyz'' @ [CHR 0x0D])) = Some (True, s1)
         \<and> cstr (command_buffer s1) (argv s1 ! 0) = ''xyz''
         \<and> ''xyz'' \<notin> set (map command (command_table cmd_version))
         \<and> command_execute cmd_version (sys_received (''xyz'' @ [CHR 0x0D]))
             = Some (s1\<lparr>stdout := ''xyz'' @ CRLF @ ''Command not found!'' @ CRLF @ ''#''\<rparr>))"
proof (intro conjI)
  from received_cr obtain s1 where
    r: "command_receive (sys_received [CHR 0x0D]) = Some (True, s1)"
    and a: "cstr (command_buffer s1) (argv s1 ! 0) = []"
    and d: "\<not> disable_newline (replay s1)" and o: "stdout s1 = CRLF"
    by auto
  from command_execute_first_token [of "sys_received [CHR 0x0D]" s1 cmd_version] r a d o
  have "command_execute cmd_version (sys_received [CHR 0x0D])
        = Some (s1\<lparr>stdout := CRLF @ CRLF @ ''#''\<rparr>)"
    by (simp add: Let_def)
  with r a show "\<exists>s1. command_receive (sys_received [CHR 0x0D]) = Some (True, s1)
         \<and> cstr (command_buffer s1) (argv s1 ! 0) = []
         \<and> command_execute cmd_version (sys_received [CHR 0x0D])
             = Some (s1\<lparr>stdout := CRLF @ CRLF @ ''#''\<rparr>)"
    by blast
next
  from received_spaces obtain s1 where
    r: "command_receive (sys_received (''   '' @ [CHR 0x0D])) = Some (True, s1)"
    and a: "cstr (command_buffer s1) (argv s1 ! 0) = []"
    and d: "\<not> disable_newline (replay s1)" and o: "stdout s1 = ''   '' @ CRLF"
    by auto
  from command_execute_first_token [of "sys_received (''   '' @ [CHR 0x0D])" s1 cmd_version] r a d o
  have "command_execute cmd_version (sys_received (''   '' @ [CHR 0x0D]))
        = Some (s1\<lparr>stdout := ''   '' @ CRLF @ CRLF @ ''#''\<rparr>)"
    by (simp add: Let_def)
  with r a show "\<exists>s1. command_receive (sys_received (''   '' @ [CHR 0x0D])) = Some (True, s1)
         \<and> cstr (command_buffer s1) (argv s1 ! 0) = []
         \<and> command_execute cmd_version (sys_received (''   '' @ [CHR 0x0D]))
             = Some (s1\<lparr>stdout := ''   '' @ CRLF @ CRLF @ ''#''\<rparr>)"
    by blast
next
  from received_unknown obtain s1 where
    r: "command_receive (sys_received (''xyz'' @ [CHR 0x0D])) = Some (True, s1)"
    and a: "cstr (command_buffer s1) (argv s1 ! 0) = ''xyz''"
    and d: "\<not> disable_newline (replay s1)" and o: "stdout s1 = ''xyz'' @ CRLF"
    by auto
  have n: "''xyz'' \<notin> set (map command (command_table cmd_version))"
    by (simp add: command_table_def)
  from command_execute_first_token [of "sys_received (''xyz'' @ [CHR 0x0D])" s1 cmd_version]
    r a d o n
  have "command_execute cmd_version (sys_received (''xyz'' @ [CHR 0x0D]))
        = Some (s1\<lparr>stdout := ''xyz'' @ CRLF @ ''Command not found!'' @ CRLF @ ''#''\<rparr>)"
    by (simp add: Let_def)
  with r a n show "\<exists>s1. command_receive (sys_received (''xyz'' @ [CHR 0x0D])) = Some (True, s1)
         \<and> cstr (command_buffer s1) (argv s1 ! 0) = ''xyz''
         \<and> ''xyz'' \<notin> set (map command (command_table cmd_version))
         \<and> command_execute cmd_version (sys_received (''xyz'' @ [CHR 0x0D]))
             = Some (s1\<lparr>stdout := ''xyz'' @ CRLF @ ''Command not found!'' @ CRLF @ ''#''\<rparr>)"
    by blast
qed

section \<open>The ring buffer: occupancy and rejection\<close>

lemma enq_occupancy:
  assumes "unat (index_in b - index_out b) \<le> unat (length' b)"
  shows "unat (index_in (snd (console_enq_buffer ch b)) - index_out (snd (console_enq_buffer ch b)))
         \<le> unat (length' b)
       \<and> length' (snd (console_enq_buffer ch b)) = length' b"
proof (cases "length' b \<le> index_in b - index_out b")
  case True
  then show ?thesis using assms by (simp add: enq_full)
next
  case False
  then have lt: "unat (index_in b - index_out b) < unat (length' b)"
    by (simp add: word_le_nat_alt)
  have "unat (length' b) < 2 ^ 16" using unsigned_less [of "length' b", where 'a=nat] by simp
  with lt have s: "unat (index_in b - index_out b) + 1 < 2 ^ 16" by simp
  have e: "unat (index_in b + 1 - index_out b) = unat (index_in b - index_out b) + 1"
  proof -
    have "unat ((index_in b - index_out b) + 1) = unat (index_in b - index_out b) + 1"
      using s by (simp add: unat_word_ariths)
    moreover have "index_in b + 1 - index_out b = (index_in b - index_out b) + 1" by simp
    ultimately show ?thesis by (simp only:)
  qed
  have "snd (console_enq_buffer ch b)
        = b\<lparr>buffer := (buffer b)[unat (index_in b mod length' b) := ch],
            index_in := index_in b + 1\<rparr>"
    by (simp add: enq_not_full [OF False])
  then show ?thesis using lt e by simp
qed

lemma deq_occupancy:
  assumes "unat (index_in b - index_out b) \<le> unat (length' b)"
  shows "unat (index_in (snd (snd (console_deq_buffer b ch)))
               - index_out (snd (snd (console_deq_buffer b ch)))) \<le> unat (length' b)
       \<and> length' (snd (snd (console_deq_buffer b ch))) = length' b"
proof -
  consider "index_in b = index_out b" | "index_in b = index_out b + 1"
    | "index_in b \<noteq> index_out b" "index_in b \<noteq> index_out b + 1"
    by blast
  then show ?thesis
  proof cases
    case 1
    then show ?thesis using assms by (simp add: deq_empty)
  next
    case 2
    then show ?thesis by (simp add: deq_last)
  next
    case 3
    then have pos: "index_in b - index_out b \<noteq> 0" by simp
    have e: "unat (index_in b - (index_out b + 1)) = unat (index_in b - index_out b) - 1"
    proof -
      have "unat ((index_in b - index_out b) - 1) = unat (index_in b - index_out b) - 1"
        using pos by (simp add: unat_minus_one)
      moreover have "index_in b - (index_out b + 1) = (index_in b - index_out b) - 1" by simp
      ultimately show ?thesis by (simp only:)
    qed
    have "snd (snd (console_deq_buffer b ch)) = b\<lparr>index_out := index_out b + 1\<rparr>"
      by (simp add: deq_some [OF 3])
    then show ?thesis using assms e by simp
  qed
qed

lemma rb_step_occupancy:
  assumes "unat (index_in (ring t) - index_out (ring t)) \<le> unat (length' (ring t))"
  shows "unat (index_in (ring (rb_step op t)) - index_out (ring (rb_step op t)))
         \<le> unat (length' (ring t))
       \<and> length' (ring (rb_step op t)) = length' (ring t)"
proof (cases op)
  case (Enq ch)
  then show ?thesis
    using enq_occupancy [OF assms, of ch] by (simp add: rb_step_def split_beta)
next
  case Deq
  then show ?thesis
    using deq_occupancy [OF assms, of NUL] by (simp add: rb_step_def split_beta)
qed

lemma rb_run_occupancy:
  assumes "unat (index_in (ring t) - index_out (ring t)) \<le> unat (length' (ring t))"
  shows "unat (index_in (ring (rb_run ops t)) - index_out (ring (rb_run ops t)))
         \<le> unat (length' (ring t))
       \<and> length' (ring (rb_run ops t)) = length' (ring t)"
  using assms
proof (induction ops arbitrary: t)
  case Nil
  then show ?case by (simp add: rb_run_Nil)
next
  case (Cons op ops)
  from rb_step_occupancy [OF Cons.prems, of op]
  have a: "unat (index_in (ring (rb_step op t)) - index_out (ring (rb_step op t)))
           \<le> unat (length' (ring (rb_step op t)))"
    and b: "length' (ring (rb_step op t)) = length' (ring t)"
    by simp_all
  from Cons.IH [OF a] b show ?case by (simp add: rb_run_Cons)
qed

text \<open>
  In every run from the initialised empty state, on every buffer, the length field never
  changes and the occupancy \<open>index_in - index_out\<close>, a 16-bit difference, never exceeds
  it.
\<close>

theorem ring_occupancy_bounded:
  "unat (index_in (ring (rb_run ops (rb_start b))) - index_out (ring (rb_run ops (rb_start b))))
     \<le> unat (length' b)
   \<and> length' (ring (rb_run ops (rb_start b))) = length' b"
proof -
  have "unat (index_in (ring (rb_start b)) - index_out (ring (rb_start b)))
        \<le> unat (length' (ring (rb_start b)))"
    by (simp add: rb_start_def console_init_buffer_def)
  from rb_run_occupancy [OF this, of ops] show ?thesis
    by (simp add: rb_start_def console_init_buffer_def)
qed

text \<open>An enqueue on a full buffer returns false and leaves the buffer as it was.\<close>

theorem enqueue_on_full_rejected:
  "console_is_buffer_full b \<longrightarrow> console_enq_buffer ch b = (False, b)"
  by (simp add: console_enq_buffer_def)

theorem enqueue_on_full_rejected_witness:
  "console_is_buffer_full (rx_buffer_init\<lparr>index_in := 320\<rparr>)
   \<and> console_enq_buffer (CHR ''a'') (rx_buffer_init\<lparr>index_in := 320\<rparr>)
       = (False, rx_buffer_init\<lparr>index_in := 320\<rparr>)"
proof -
  have f: "console_is_buffer_full (rx_buffer_init\<lparr>index_in := 320\<rparr>)"
    by (simp add: console_is_buffer_full_def rx_buffer_init_def CONSOLE_RX_BUF_LEN_def)
  from enqueue_on_full_rejected [of "rx_buffer_init\<lparr>index_in := 320\<rparr>" "CHR ''a''"] f
  show ?thesis by simp
qed

section \<open>The ring buffer: lengths that divide the index modulus\<close>

lemma slot_pow2:
  fixes x L :: u16
  assumes "unat L dvd 65536"
  shows "unat ((x + of_nat k) mod L) = (unat x + k) mod unat L"
proof -
  have "unat (x + of_nat k) = (unat x + k) mod 65536"
    by (simp add: unat_word_ariths unat_of_nat mod_add_right_eq)
  then have "unat ((x + of_nat k) mod L) = ((unat x + k) mod 65536) mod unat L"
    by (simp add: unat_mod)
  also have "\<dots> = (unat x + k) mod unat L"
    using assms by (rule mod_mod_cancel)
  finally show ?thesis .
qed

lemma slot_distinct:
  fixes a k m n :: nat
  assumes "k < m" and "m < n"
  shows "(a + k) mod n \<noteq> (a + m) mod n"
proof
  assume "(a + k) mod n = (a + m) mod n"
  then have "n dvd (a + m) - (a + k)"
    using assms by (metis add_le_cancel_left less_imp_le_nat mod_eq_dvd_iff_nat)
  then have "n dvd m - k" by simp
  moreover have "0 < m - k" "m - k < n" using assms by simp_all
  ultimately show False by (meson dvd_imp_le not_le)
qed

lemma enq_contents:
  assumes p: "rb_pow2 b" and o: "unat (index_in b - index_out b) \<le> unat (length' b)"
    and nf: "\<not> length' b \<le> index_in b - index_out b"
  shows "rb_contents (b\<lparr>buffer := (buffer b)[unat (index_in b mod length' b) := ch],
                        index_in := index_in b + 1\<rparr>) = rb_contents b @ [ch]"
proof -
  define n where "n = unat (length' b)"
  define m where "m = unat (index_in b - index_out b)"
  define a where "a = unat (index_out b)"
  have d: "unat (length' b) dvd 65536" and len: "length (buffer b) = n" and n0: "0 < n"
    using p by (simp_all add: rb_pow2_def n_def)
  have lt: "m < n" using nf by (simp add: word_le_nat_alt m_def n_def)
  have "n < 2 ^ 16" using unsigned_less [of "length' b", where 'a=nat] by (simp add: n_def)
  with lt have s: "m + 1 < 2 ^ 16" by simp
  have m': "unat (index_in b + 1 - index_out b) = m + 1"
  proof -
    have "unat ((index_in b - index_out b) + 1) = unat (index_in b - index_out b) + 1"
      using s by (simp add: unat_word_ariths m_def)
    moreover have "index_in b + 1 - index_out b = (index_in b - index_out b) + 1" by simp
    ultimately show ?thesis by (simp only: m_def)
  qed
  have slot: "unat ((index_out b + of_nat k) mod length' b) = (a + k) mod n" for k
    using slot_pow2 [OF d, of "index_out b" k] by (simp add: a_def n_def)
  have "index_in b = index_out b + of_nat m" by (simp add: m_def)
  then have "unat (index_in b mod length' b) = unat ((index_out b + of_nat m) mod length' b)"
    by simp
  then have si: "unat (index_in b mod length' b) = (a + m) mod n" by (simp only: slot)
  have old: "(buffer b)[(a + m) mod n := ch] ! ((a + k) mod n) = buffer b ! ((a + k) mod n)"
    if "k < m" for k
    using slot_distinct [OF that lt, of a] by simp
  have new: "(buffer b)[(a + m) mod n := ch] ! ((a + m) mod n) = ch"
    using len n0 by simp
  have "rb_contents (b\<lparr>buffer := (buffer b)[unat (index_in b mod length' b) := ch],
                        index_in := index_in b + 1\<rparr>)
        = map (\<lambda>k. (buffer b)[(a + m) mod n := ch] ! ((a + k) mod n)) [0 ..< m + 1]"
    by (simp add: rb_contents_def m' si slot)
  also have "\<dots> = map (\<lambda>k. buffer b ! ((a + k) mod n)) [0 ..< m] @ [ch]"
    using old new by simp
  also have "\<dots> = rb_contents b @ [ch]"
    by (simp add: rb_contents_def slot m_def)
  finally show ?thesis .
qed

lemma deq_contents_some:
  assumes p: "rb_pow2 b" and n1: "index_in b \<noteq> index_out b"
    and n2: "index_in b \<noteq> index_out b + 1"
  shows "rb_contents b
         = buffer b ! unat (index_out b mod length' b)
             # rb_contents (b\<lparr>index_out := index_out b + 1\<rparr>)"
proof -
  define m where "m = unat (index_in b - index_out b)"
  have pos: "index_in b - index_out b \<noteq> 0" using n1 by simp
  then have m0: "0 < m" by (simp add: m_def unat_gt_0)
  have m': "unat (index_in b - (index_out b + 1)) = m - 1"
  proof -
    have "unat ((index_in b - index_out b) - 1) = unat (index_in b - index_out b) - 1"
      using pos by (simp add: unat_minus_one)
    moreover have "index_in b - (index_out b + 1) = (index_in b - index_out b) - 1" by simp
    ultimately show ?thesis by (simp only: m_def)
  qed
  have u: "[0 ..< m] = 0 # map Suc [0 ..< m - 1]"
    using m0 by (metis Suc_pred' map_Suc_upt upt_conv_Cons)
  have "rb_contents b
        = map (\<lambda>k. buffer b ! unat ((index_out b + of_nat k) mod length' b)) [0 ..< m]"
    by (simp add: rb_contents_def m_def)
  also have "\<dots> = buffer b ! unat (index_out b mod length' b)
      # map (\<lambda>k. buffer b ! unat ((index_out b + of_nat (Suc k)) mod length' b)) [0 ..< m - 1]"
    unfolding u by (simp add: comp_def)
  also have "\<dots> = buffer b ! unat (index_out b mod length' b)
      # rb_contents (b\<lparr>index_out := index_out b + 1\<rparr>)"
    by (simp add: rb_contents_def m' add.assoc)
  finally show ?thesis .
qed

lemma deq_contents_last:
  assumes "index_in b = index_out b + 1"
  shows "rb_contents b = [buffer b ! unat (index_out b mod length' b)]"
    and "rb_contents (b\<lparr>index_out := index_out b mod length' b + 1,
                        index_in := index_out b mod length' b + 1\<rparr>) = []"
  using assms by (simp_all add: rb_contents_def)

lemma rb_step_fifo:
  assumes p: "rb_pow2 (ring t)"
    and o: "unat (index_in (ring t) - index_out (ring t)) \<le> unat (length' (ring t))"
    and f: "accepted t = delivered t @ rb_contents (ring t)"
  shows "rb_pow2 (ring (rb_step op t))
       \<and> accepted (rb_step op t) = delivered (rb_step op t) @ rb_contents (ring (rb_step op t))"
proof (cases op)
  case (Enq ch)
  show ?thesis
  proof (cases "length' (ring t) \<le> index_in (ring t) - index_out (ring t)")
    case True
    have "rb_step (Enq ch) t = t\<lparr>ring := ring t, accepted := accepted t\<rparr>"
      using rb_step_Enq [OF enq_full [OF True, of ch]] by simp
    then show ?thesis using Enq p f by simp
  next
    case False
    define b1 where "b1 = (ring t)\<lparr>buffer := (buffer (ring t))
                       [unat (index_in (ring t) mod length' (ring t)) := ch],
                     index_in := index_in (ring t) + 1\<rparr>"
    have e: "rb_step (Enq ch) t = t\<lparr>ring := b1, accepted := accepted t @ [ch]\<rparr>"
      using rb_step_Enq [OF enq_not_full [OF False, of ch]] by (simp add: b1_def)
    have c: "rb_contents b1 = rb_contents (ring t) @ [ch]"
      unfolding b1_def by (rule enq_contents [OF p o False])
    have q: "rb_pow2 b1" using p by (simp add: rb_pow2_def b1_def)
    show ?thesis using Enq q c f by (simp add: e)
  qed
next
  case Deq
  consider "index_in (ring t) = index_out (ring t)"
    | "index_in (ring t) = index_out (ring t) + 1"
    | "index_in (ring t) \<noteq> index_out (ring t)" "index_in (ring t) \<noteq> index_out (ring t) + 1"
    by blast
  then show ?thesis
  proof cases
    case 1
    have "rb_step Deq t = t\<lparr>ring := ring t, delivered := delivered t\<rparr>"
      using rb_step_Deq [OF deq_empty [OF 1, of NUL]] by simp
    then show ?thesis using Deq p f by simp
  next
    case 2
    define b1 where "b1 = (ring t)\<lparr>index_out := index_out (ring t) mod length' (ring t) + 1,
              index_in := index_out (ring t) mod length' (ring t) + 1\<rparr>"
    define c where "c = buffer (ring t) ! unat (index_out (ring t) mod length' (ring t))"
    have e: "rb_step Deq t = t\<lparr>ring := b1, delivered := delivered t @ [c]\<rparr>"
      using rb_step_Deq [OF deq_last [OF 2, of NUL]] by (simp add: b1_def c_def)
    have c1: "rb_contents (ring t) = [c]" and c2: "rb_contents b1 = []"
      using deq_contents_last [OF 2] by (simp_all add: b1_def c_def)
    have q: "rb_pow2 b1" using p by (simp add: rb_pow2_def b1_def)
    show ?thesis using Deq q c1 c2 f by (simp add: e)
  next
    case 3
    define b1 where "b1 = (ring t)\<lparr>index_out := index_out (ring t) + 1\<rparr>"
    define c where "c = buffer (ring t) ! unat (index_out (ring t) mod length' (ring t))"
    have e: "rb_step Deq t = t\<lparr>ring := b1, delivered := delivered t @ [c]\<rparr>"
      using rb_step_Deq [OF deq_some [OF 3, of NUL]] by (simp add: b1_def c_def)
    have c1: "rb_contents (ring t) = c # rb_contents b1"
      using deq_contents_some [OF p 3] by (simp add: b1_def c_def)
    have q: "rb_pow2 b1" using p by (simp add: rb_pow2_def b1_def)
    show ?thesis using Deq q c1 f by (simp add: e)
  qed
qed

lemma rb_run_fifo:
  assumes "rb_pow2 (ring t)"
    and "unat (index_in (ring t) - index_out (ring t)) \<le> unat (length' (ring t))"
    and "accepted t = delivered t @ rb_contents (ring t)"
  shows "accepted (rb_run ops t) = delivered (rb_run ops t) @ rb_contents (ring (rb_run ops t))"
  using assms
proof (induction ops arbitrary: t)
  case Nil
  then show ?case by (simp add: rb_run_Nil)
next
  case (Cons op ops)
  from rb_step_fifo [OF Cons.prems, of op]
  have a: "rb_pow2 (ring (rb_step op t))"
    and b: "accepted (rb_step op t)
            = delivered (rb_step op t) @ rb_contents (ring (rb_step op t))"
    by simp_all
  from rb_step_occupancy [OF Cons.prems(2), of op]
  have c: "unat (index_in (ring (rb_step op t)) - index_out (ring (rb_step op t)))
           \<le> unat (length' (ring (rb_step op t)))"
    by simp
  from Cons.IH [OF a c b] show ?case by (simp add: rb_run_Cons)
qed

text \<open>
  On a ring whose length divides \<open>2 ^ 16\<close> the order is kept in every run from the
  initialised empty state: the bytes accepted are the bytes delivered followed by the
  bytes still held, so the bytes delivered are a prefix of the bytes accepted. The wrap
  of the indices is harmless there, because reducing modulo \<open>2 ^ 16\<close> and then modulo
  the length is reducing modulo the length.
\<close>

theorem ring_fifo_when_length_divides:
  "rb_pow2 b \<longrightarrow>
     accepted (rb_run ops (rb_start b))
       = delivered (rb_run ops (rb_start b)) @ rb_contents (ring (rb_run ops (rb_start b)))
     \<and> delivered (rb_run ops (rb_start b))
       = take (length (delivered (rb_run ops (rb_start b)))) (accepted (rb_run ops (rb_start b)))"
proof
  assume p: "rb_pow2 b"
  have a: "rb_pow2 (ring (rb_start b))"
    using p by (simp add: rb_pow2_def rb_start_def console_init_buffer_def)
  have o: "unat (index_in (ring (rb_start b)) - index_out (ring (rb_start b)))
           \<le> unat (length' (ring (rb_start b)))"
    by (simp add: rb_start_def console_init_buffer_def)
  have f: "accepted (rb_start b) = delivered (rb_start b) @ rb_contents (ring (rb_start b))"
    by (simp add: rb_start_def console_init_buffer_def rb_contents_def)
  have r: "accepted (rb_run ops (rb_start b))
       = delivered (rb_run ops (rb_start b)) @ rb_contents (ring (rb_run ops (rb_start b)))"
    by (rule rb_run_fifo [OF a o f])
  then have "take (length (delivered (rb_run ops (rb_start b)))) (accepted (rb_run ops (rb_start b)))
             = delivered (rb_run ops (rb_start b))"
    by simp
  with r show "accepted (rb_run ops (rb_start b))
       = delivered (rb_run ops (rb_start b)) @ rb_contents (ring (rb_run ops (rb_start b)))
     \<and> delivered (rb_run ops (rb_start b))
       = take (length (delivered (rb_run ops (rb_start b)))) (accepted (rb_run ops (rb_start b)))"
    by simp
qed

theorem ring_fifo_when_length_divides_witness:
  "rb_pow2 tx_buffer_init
   \<and> delivered (rb_run [Enq (CHR ''a''), Enq (CHR ''b''), Deq] (rb_start tx_buffer_init))
       = take (length (delivered (rb_run [Enq (CHR ''a''), Enq (CHR ''b''), Deq]
                                    (rb_start tx_buffer_init))))
           (accepted (rb_run [Enq (CHR ''a''), Enq (CHR ''b''), Deq] (rb_start tx_buffer_init)))"
proof -
  have p: "rb_pow2 tx_buffer_init"
    by (simp add: rb_pow2_def tx_buffer_init_def CONSOLE_TX_BUF_LEN_def)
  from ring_fifo_when_length_divides
    [of tx_buffer_init "[Enq (CHR ''a''), Enq (CHR ''b''), Deq]"] p
  show ?thesis by blast
qed

section \<open>Elapsed time across the wrap of the tick\<close>

text \<open>
  With the tick and its mirror coherent, \<^verbatim>\<open>timer_get_elapsed_module_timer\<close> returns the
  tick minus the mark modulo \<open>2 ^ 32\<close>: if the tick has advanced by \<open>d\<close> since the mark
  was taken, wrapped or not, the result is \<open>d\<close>, and the state is unchanged.
\<close>

theorem elapsed_across_wrap:
  "tick (timer_data t) = (tick (timer_data_red t) XOR 0xFFFFFFFF)
   \<and> tick (timer_data t) = mark + d
   \<longrightarrow> timer_get_elapsed_module_timer mark t = (d, t)"
proof (intro impI, elim conjE)
  assume c: "tick (timer_data t) = (tick (timer_data_red t) XOR 0xFFFFFFFF)"
    and m: "tick (timer_data t) = mark + d"
  have g: "timer_get_tick t = (tick (timer_data t), t)"
    using c by (simp add: timer_get_tick_def disable_irq_def set_PRIMASK_def Let_def)
  have "mark + d - mark = d" by simp
  then show "timer_get_elapsed_module_timer mark t = (d, t)"
    by (simp add: timer_get_elapsed_module_timer_def g m)
qed

theorem elapsed_across_wrap_witness:
  "timer_get_elapsed_module_timer 0xFFFFFFF0
     \<lparr>timer_data = timer_data_init\<lparr>tick := 0x10\<rparr>,
      timer_data_red = timer_data_red_init\<lparr>tick := 0xFFFFFFEF\<rparr>, primask = 0\<rparr>
   = (0x20, \<lparr>timer_data = timer_data_init\<lparr>tick := 0x10\<rparr>,
             timer_data_red = timer_data_red_init\<lparr>tick := 0xFFFFFFEF\<rparr>, primask = 0\<rparr>)"
  using elapsed_across_wrap
    [of "\<lparr>timer_data = timer_data_init\<lparr>tick := 0x10\<rparr>,
         timer_data_red = timer_data_red_init\<lparr>tick := 0xFFFFFFEF\<rparr>, primask = 0\<rparr>"
        "0xFFFFFFF0" "0x20"]
  by simp

section \<open>The tokeniser stays inside its arrays\<close>

lemma nsplit_find_quote_in_range:
  assumes "p \<le> q" and "q < length inb" and "inb ! q = CHR 0x22"
  shows "\<exists>p1. nsplit_find_quote inb p lim = Some p1 \<and> p \<le> p1 \<and> p1 \<le> q"
  using assms
proof (induction inb p lim rule: nsplit_find_quote.induct)
  case (1 inb p lim)
  have r: "rd inb p = Some (inb ! p)" using "1.prems" by (simp add: rd_def)
  show ?case
  proof (cases "inb ! p \<noteq> CHR 0x22 \<and> lim < 5")
    case True
    then have "p \<noteq> q" using "1.prems" by auto
    then have le: "p + 1 \<le> q" using "1.prems" by simp
    from "1.IH" [OF r True le "1.prems"(2,3)] obtain p1 where
      "nsplit_find_quote inb (p + 1) (lim + 1) = Some p1" "p + 1 \<le> p1" "p1 \<le> q" by blast
    then show ?thesis
      using True r by (subst nsplit_find_quote.simps) auto
  next
    case False
    then show ?thesis
      using r "1.prems" by (subst nsplit_find_quote.simps) auto
  qed
qed

lemma nsplit_strip_in_range:
  assumes "ix = i" and "p = i" and "i \<le> len" and "len < length inb"
  shows "\<exists>j. nsplit_strip inb div_char len ix i p = Some (j, j, j) \<and> i \<le> j \<and> j \<le> len"
  using assms
proof (induction inb div_char len ix i p rule: nsplit_strip.induct)
  case (1 inb div_char len ix i p)
  show ?case
  proof (cases "i < len")
    case True
    then have r: "rd inb ix = Some (inb ! i)" using "1.prems" by (simp add: rd_def)
    show ?thesis
    proof (cases "inb ! i \<noteq> NUL \<and> inb ! i = div_char")
      case c: True
      from "1.IH" [OF True r c] "1.prems" True obtain j where
        "nsplit_strip inb div_char len (ix + 1) (i + 1) (p + 1) = Some (j, j, j)"
        "i + 1 \<le> j" "j \<le> len"
        by auto
      then show ?thesis
        using True r c by (subst nsplit_strip.simps) auto
    next
      case False
      then show ?thesis
        using True r "1.prems" by (subst nsplit_strip.simps) auto
    qed
  next
    case False
    then show ?thesis
      using "1.prems" by (subst nsplit_strip.simps) auto
  qed
qed

lemma nsplit_quote_in_range:
  assumes "1 \<le> num" and "num - 1 < length out" and "out ! (num - 1) \<le> i"
    and "i < length inb" and "inb ! i = CHR 0x22"
  shows "\<exists>tq1 out1. nsplit_quote inb out i tq num = Some (tq1, out1, inb[i := CHR '' ''])
          \<and> length out1 = length out \<and> out1 ! (num - 1) \<le> i + 1"
proof (cases "tq XOR 1 = 1")
  case True
  have r: "rd out (num - 1) = Some (out ! (num - 1))" using assms by (simp add: rd_def)
  from nsplit_find_quote_in_range [OF assms(3,4,5), of 0] obtain p1 where
    f: "nsplit_find_quote inb (out ! (num - 1)) 0 = Some p1" and "p1 \<le> i" by blast
  then show ?thesis
    using True r assms by (simp add: nsplit_quote_def Let_def)
next
  case False
  then show ?thesis
    using assms by (simp add: nsplit_quote_def Let_def)
qed

lemma nsplit_loop_in_range:
  assumes "i \<le> len" and "len < length inb" and "1 \<le> num" and "num \<le> max max_num 1"
    and "max_num \<le> length out" and "0 < length out" and "out ! (num - 1) \<le> i"
  shows "\<exists>inb1 out1 j num1.
           nsplit_loop div_char len max_num inb out i i tq num = Some (inb1, out1, j, num1)
           \<and> j \<le> len \<and> length inb1 = length inb \<and> length out1 = length out
           \<and> 1 \<le> num1 \<and> num1 \<le> max max_num 1"
  using assms
proof (induction "len - i" arbitrary: inb out i tq num rule: less_induct)
  case less
  note p = less.prems
  show ?case
  proof (cases "i < len \<and> num < max_num")
    case False
    then have "nsplit_loop div_char len max_num inb out i i tq num = Some (inb, out, i, num)"
      by (subst nsplit_loop.simps) auto
    then show ?thesis using p by simp
  next
    case True
    then have il: "i < len" and nm: "num < max_num" by simp_all
    have r: "rd inb i = Some (inb ! i)" using il p by (simp add: rd_def)
    show ?thesis
    proof (cases "inb ! i = NUL")
      case n: True
      have "nsplit_loop div_char len max_num inb out i i tq num = Some (inb, out, i, num)"
        using True r n by (subst nsplit_loop.simps) simp
      then show ?thesis using p by simp
    next
      case nn: False
      have "\<exists>tq1 out1 inb1.
              (if inb ! i = CHR 0x22 then nsplit_quote inb out i tq num else Some (tq, out, inb))
                = Some (tq1, out1, inb1)
              \<and> length out1 = length out \<and> length inb1 = length inb
              \<and> out1 ! (num - 1) \<le> i + 1"
      proof (cases "inb ! i = CHR 0x22")
        case q: True
        have a: "num - 1 < length out" using nm p by simp
        have b: "i < length inb" using il p by simp
        from nsplit_quote_in_range [OF p(3) a p(7) b q, of tq] q show ?thesis by auto
      next
        case False
        then show ?thesis using p by simp
      qed
      then obtain tq1 out1 inb1 where
        q: "(if inb ! i = CHR 0x22 then nsplit_quote inb out i tq num else Some (tq, out, inb))
                = Some (tq1, out1, inb1)"
        and lo: "length out1 = length out" and li: "length inb1 = length inb"
        and o1: "out1 ! (num - 1) \<le> i + 1"
        by blast
      show ?thesis
      proof (cases "inb1 ! i = div_char \<and> tq1 = 0")
        case sp: True
        have nl: "num < length out1" using nm p lo by simp
        define inb2 where "inb2 = inb1[i := NUL]"
        have l2: "length inb2 = length inb" by (simp add: inb2_def li)
        have "\<exists>j. nsplit_strip inb2 div_char len (i + 1) (i + 1) (i + 1) = Some (j, j, j)
                \<and> i + 1 \<le> j \<and> j \<le> len"
          using il p l2 by (intro nsplit_strip_in_range) simp_all
        then obtain j where
          st: "nsplit_strip inb2 div_char len (i + 1) (i + 1) (i + 1) = Some (j, j, j)"
          and j1: "i + 1 \<le> j" and j2: "j \<le> len"
          by blast
        have r2: "rd inb2 j = Some (inb2 ! j)" using j2 p l2 by (simp add: rd_def)
        define num' where "num' = (if inb2 ! j \<noteq> NUL then num + 1 else num)"
        have ih: "\<exists>inb3 out3 k num3.
           nsplit_loop div_char len max_num inb2 (out1[num := j]) j j tq1 num'
             = Some (inb3, out3, k, num3)
           \<and> k \<le> len \<and> length inb3 = length inb2 \<and> length out3 = length (out1[num := j])
           \<and> 1 \<le> num3 \<and> num3 \<le> max max_num 1"
        proof (rule less.hyps)
          show "len - j < len - i" using j1 il by simp
          show "j \<le> len" by (rule j2)
          show "len < length inb2" using p l2 by simp
          show "1 \<le> num'" using p by (simp add: num'_def)
          show "num' \<le> max max_num 1" using nm by (simp add: num'_def)
          show "max_num \<le> length (out1[num := j])" using p lo by simp
          show "0 < length (out1[num := j])" using p lo by simp
          show "out1[num := j] ! (num' - 1) \<le> j"
          proof (cases "inb2 ! j \<noteq> NUL")
            case True
            then show ?thesis using nl by (simp add: num'_def)
          next
            case False
            have "num - 1 \<noteq> num" using p by simp
            then have "out1[num := j] ! (num - 1) = out1 ! (num - 1)" by simp
            then show ?thesis using False o1 j1 by (simp add: num'_def)
          qed
        qed
        have e: "nsplit_loop div_char len max_num inb out i i tq num
                 = nsplit_loop div_char len max_num inb2 (out1[num := j]) j j tq1 num'"
          using True r nn q sp nl st r2
          by (subst nsplit_loop.simps) (simp add: inb2_def [symmetric] num'_def Let_def)
        show ?thesis unfolding e using ih l2 lo by auto
      next
        case ns: False
        have ih: "\<exists>inb3 out3 k num3.
           nsplit_loop div_char len max_num inb1 out1 (i + 1) (i + 1) tq1 num
             = Some (inb3, out3, k, num3)
           \<and> k \<le> len \<and> length inb3 = length inb1 \<and> length out3 = length out1
           \<and> 1 \<le> num3 \<and> num3 \<le> max max_num 1"
        proof (rule less.hyps)
          show "len - (i + 1) < len - i" using il by simp
          show "i + 1 \<le> len" using il by simp
          show "len < length inb1" using p li by simp
          show "1 \<le> num" by (rule p(3))
          show "num \<le> max max_num 1" by (rule p(4))
          show "max_num \<le> length out1" using p lo by simp
          show "0 < length out1" using p lo by simp
          show "out1 ! (num - 1) \<le> i + 1" by (rule o1)
        qed
        have e: "nsplit_loop div_char len max_num inb out i i tq num
                 = nsplit_loop div_char len max_num inb1 out1 (i + 1) (i + 1) tq1 num"
          using True r nn q ns
          by (subst nsplit_loop.simps) auto
        show ?thesis unfolding e using ih li lo by auto
      qed
    qed
  qed
qed

text \<open>
  On a NUL-terminated array and a pointer table with room for \<open>max_num\<close> entries
  (\<open>max_num\<close> at least 1), \<^verbatim>\<open>nsplit\<close> makes no access outside the array or the table:
  it returns a count between 1 and \<open>max_num\<close> and leaves both with their lengths.
\<close>

theorem nsplit_in_range:
  "NUL \<in> set inb \<and> 0 < max_num \<and> max_num \<le> length out \<longrightarrow>
     (\<exists>n buf tbl. nsplit inb div_char out max_num = Some (n, buf, tbl)
        \<and> 1 \<le> n \<and> n \<le> int max_num \<and> length buf = length inb \<and> length tbl = length out)"
proof (intro impI, elim conjE)
  assume z: "NUL \<in> set inb" and m: "0 < max_num" and t: "max_num \<le> length out"
  define len where "len = length (takeWhile (\<lambda>c. c \<noteq> NUL) inb)"
  have sl: "strlen inb = Some len" using z by (simp add: strlen_def len_def)
  have "dropWhile (\<lambda>c. c \<noteq> NUL) inb \<noteq> []"
    using z by simp
  then have "0 < length (dropWhile (\<lambda>c. c \<noteq> NUL) inb)" by simp
  moreover have "length (takeWhile (\<lambda>c. c \<noteq> NUL) inb) + length (dropWhile (\<lambda>c. c \<noteq> NUL) inb)
                 = length inb"
    by (metis length_append takeWhile_dropWhile_id)
  ultimately have ll: "len < length inb" unfolding len_def by linarith
  have lo: "0 < length out" using m t by linarith
  from nsplit_loop_in_range [of 0 len inb 1 max_num "out[0 := 0]" div_char 0] ll m t lo
  obtain inb1 out1 j num1 where
    lp: "nsplit_loop div_char len max_num inb (out[0 := 0]) 0 0 0 1 = Some (inb1, out1, j, num1)"
    and j: "j \<le> len" and li: "length inb1 = length inb" and lt: "length out1 = length out"
    and n1: "1 \<le> num1" and n2: "num1 \<le> max max_num 1"
    by auto
  have jl: "j < length inb1" using j ll li by simp
  have "nsplit inb div_char out max_num = Some (int num1, inb1[j := NUL], out1)"
    using sl lo lp jl by (simp add: nsplit_def)
  moreover have "num1 \<le> max_num" using n2 m by simp
  ultimately show "\<exists>n buf tbl. nsplit inb div_char out max_num = Some (n, buf, tbl)
        \<and> 1 \<le> n \<and> n \<le> int max_num \<and> length buf = length inb \<and> length tbl = length out"
    using n1 li lt by simp
qed

theorem nsplit_in_range_witness:
  "NUL \<in> set (''a b'' @ [NUL]) \<and> (0::nat) < 3 \<and> (3::nat) \<le> length [0, 0, 0 :: nat]
   \<and> (\<exists>n buf tbl. nsplit (''a b'' @ [NUL]) (CHR '' '') [0, 0, 0] 3 = Some (n, buf, tbl)
        \<and> 1 \<le> n \<and> n \<le> 3)"
  using nsplit_in_range [of "''a b'' @ [NUL]" 3 "[0, 0, 0]" "CHR '' ''"]
  by auto

end
